theory Spec2Isabelle
  imports Main "HOL-Library.Sublist"
begin

section \<open>JavaScript strings\<close>

text \<open>
  A JavaScript string is a sequence of UTF-16 code units. The model uses \<^typ>\<open>string\<close>:
  one \<^typ>\<open>char\<close> stands for one code unit below 256 (the Latin-1 range), which covers
  everything the patterns of \<^verbatim>\<open>tfvc.ts\<close> name. \<open>length\<close> is the \<^verbatim>\<open>.length\<close> of the source.
\<close>

definition code :: "char \<Rightarrow> nat" where
  "code c = of_char c"

text \<open>White space and line terminators (\<^verbatim>\<open>\s\<close> of a pattern, and what \<^verbatim>\<open>trim()\<close> strips): tab, line
  feed, vertical tab, form feed, carriage return, space and the no-break space.\<close>

definition is_space :: "char \<Rightarrow> bool" where
  "is_space c =
     (c = CHR 0x09 \<or> c = CHR 0x0A \<or> c = CHR 0x0B \<or> c = CHR 0x0C \<or> c = CHR 0x0D \<or>
      c = CHR 0x20 \<or> c = CHR 0xA0)"

definition is_line_terminator :: "char \<Rightarrow> bool" where
  "is_line_terminator c = (c = CHR 0x0A \<or> c = CHR 0x0D)"

definition is_digit :: "char \<Rightarrow> bool" where
  "is_digit c = (48 \<le> code c \<and> code c \<le> 57)"

definition is_upper :: "char \<Rightarrow> bool" where
  "is_upper c = ((65 \<le> code c \<and> code c \<le> 90) \<or> (192 \<le> code c \<and> code c \<le> 222 \<and> code c \<noteq> 215))"

definition is_lower :: "char \<Rightarrow> bool" where
  "is_lower c = ((97 \<le> code c \<and> code c \<le> 122) \<or> (224 \<le> code c \<and> code c \<le> 254 \<and> code c \<noteq> 247))"

definition is_ascii_letter :: "char \<Rightarrow> bool" where
  "is_ascii_letter c = ((65 \<le> code c \<and> code c \<le> 90) \<or> (97 \<le> code c \<and> code c \<le> 122))"

text \<open>\<^verbatim>\<open>\w\<close>: the characters \<^verbatim>\<open>[A-Za-z0-9_]\<close>.\<close>

definition is_word :: "char \<Rightarrow> bool" where
  "is_word c = (is_ascii_letter c \<or> is_digit c \<or> code c = 95)"

text \<open>The two cases of a letter differ by 32, which is bit 5 of the code unit.\<close>

fun lower_char :: "char \<Rightarrow> char" where
  "lower_char (Char b0 b1 b2 b3 b4 b5 b6 b7) =
     (if is_upper (Char b0 b1 b2 b3 b4 b5 b6 b7) then Char b0 b1 b2 b3 b4 True b6 b7
      else Char b0 b1 b2 b3 b4 b5 b6 b7)"

fun upper_char :: "char \<Rightarrow> char" where
  "upper_char (Char b0 b1 b2 b3 b4 b5 b6 b7) =
     (if is_lower (Char b0 b1 b2 b3 b4 b5 b6 b7) then Char b0 b1 b2 b3 b4 False b6 b7
      else Char b0 b1 b2 b3 b4 b5 b6 b7)"

text \<open>\<^verbatim>\<open>s.toLowerCase()\<close>\<close>

definition toLowerCase :: "string \<Rightarrow> string" where
  "toLowerCase s = map lower_char s"

text \<open>\<^verbatim>\<open>s.trim()\<close>\<close>

definition trimStart :: "string \<Rightarrow> string" where
  "trimStart s = dropWhile is_space s"

definition trimEnd :: "string \<Rightarrow> string" where
  "trimEnd s = rev (dropWhile is_space (rev s))"

definition trim :: "string \<Rightarrow> string" where
  "trim s = trimEnd (trimStart s)"

text \<open>\<^verbatim>\<open>s.startsWith(x)\<close> is \<^term>\<open>prefix x s\<close>; \<^verbatim>\<open>s.includes(x)\<close> looks for \<open>x\<close> at every
  position of \<open>s\<close>, the end included (so the empty string is included in every string).\<close>

fun includes_str :: "string \<Rightarrow> string \<Rightarrow> bool" where
  "includes_str [] x = (x = [])"
| "includes_str (c # cs) x = (prefix x (c # cs) \<or> includes_str cs x)"

text \<open>The truth value of a possibly absent string (\<^verbatim>\<open>undefined\<close>, \<^verbatim>\<open>null\<close> and \<^verbatim>\<open>""\<close> are
  falsy).\<close>

fun truthy :: "string option \<Rightarrow> bool" where
  "truthy None = False"
| "truthy (Some s) = (s \<noteq> [])"

text \<open>The string of a possibly absent string that is known to be there.\<close>

fun the_string :: "string option \<Rightarrow> string" where
  "the_string None = []"
| "the_string (Some s) = s"

section \<open>Regular expressions\<close>

text \<open>
  The patterns of \<^verbatim>\<open>tfvc.ts\<close> are modelled as terms of a datatype and run by a backtracking
  matcher written in the continuation style of the ECMAScript specification: a pattern is
  matched against the rest of the input and hands every way it can match, in the order
  of priority, to the continuation that stands for the rest of the pattern; the first way
  the continuation accepts is the match. In \<^verbatim>\<open>tfvc.ts\<close> every quantifier stands on a single
  character or character class, so \<open>Rep\<close> takes a character set.

  The flags \<^verbatim>\<open>i\<close> and \<^verbatim>\<open>m\<close> are arguments of the matcher; the flag \<^verbatim>\<open>g\<close> is the choice between
  \<open>replace_first\<close> and \<open>replace_all\<close>.
\<close>

datatype flags = Flags (ignoreCase: bool) (multiline: bool)

text \<open>A character class \<^verbatim>\<open>[...]\<close> (also a single character, an escape such as \<^verbatim>\<open>\s\<close>) and a
  negated class \<^verbatim>\<open>[^...]\<close>, each given by the predicate of its members.\<close>

datatype cset = Cls "char \<Rightarrow> bool" | NotCls "char \<Rightarrow> bool"

datatype re =
    Atom cset
  | Rep cset nat "nat option" bool
  | Seq re re
  | Alt re re
  | Group nat re
  | Bol
  | Eol
  | WordB
  | Eps

text \<open>
  \<open>Rep cs lo hi greedy\<close> is \<^verbatim>\<open>cs{lo,hi}\<close> (no upper bound for \<open>None\<close>), lazy (\<^verbatim>\<open>?\<close> after the
  quantifier) when \<open>greedy\<close> is false. \<open>Group n\<close> is the \<open>n\<close>-th capturing group. \<open>Bol\<close>,
  \<open>Eol\<close> and \<open>WordB\<close> are \<^verbatim>\<open>^\<close>, \<^verbatim>\<open>$\<close> and \<^verbatim>\<open>\b\<close>.

  With the flag \<^verbatim>\<open>i\<close> a character belongs to a class when a member of the class has the
  same canonical (upper case) form.
\<close>

fun member_cs :: "flags \<Rightarrow> cset \<Rightarrow> char \<Rightarrow> bool" where
  "member_cs f (Cls p) c =
     (if ignoreCase f then p c \<or> p (lower_char c) \<or> p (upper_char c) else p c)"
| "member_cs f (NotCls p) c =
     (\<not> (if ignoreCase f then p c \<or> p (lower_char c) \<or> p (upper_char c) else p c))"

text \<open>A capture is kept as the input at the start and at the end of its group; the
  state of a match is the captures, the character before the position (for \<^verbatim>\<open>^\<close> and
  \<^verbatim>\<open>\b\<close>) and the rest of the input.\<close>

type_synonym caps = "nat \<Rightarrow> (string \<times> string) option"

type_synonym mstate = "caps \<times> char option \<times> string"

fun reps :: "(char \<Rightarrow> bool) \<Rightarrow> nat \<Rightarrow> nat option \<Rightarrow> bool \<Rightarrow> char option \<Rightarrow> string \<Rightarrow>
    (char option \<Rightarrow> string \<Rightarrow> 'a option) \<Rightarrow> 'a option" where
  "reps p lo hi greedy prev [] k = (if lo = 0 then k prev [] else None)"
| "reps p lo hi greedy prev (c # cs) k =
     (if 0 < lo
      then (if p c \<and> hi \<noteq> Some 0
            then reps p (lo - 1) (map_option (\<lambda>h. h - 1) hi) greedy (Some c) cs k else None)
      else if p c \<and> hi \<noteq> Some 0
      then (if greedy
            then (case reps p 0 (map_option (\<lambda>h. h - 1) hi) greedy (Some c) cs k of
                    Some r \<Rightarrow> Some r
                  | None \<Rightarrow> k prev (c # cs))
            else (case k prev (c # cs) of
                    Some r \<Rightarrow> Some r
                  | None \<Rightarrow> reps p 0 (map_option (\<lambda>h. h - 1) hi) greedy (Some c) cs k))
      else k prev (c # cs))"

definition at_bol :: "flags \<Rightarrow> char option \<Rightarrow> bool" where
  "at_bol f prev = (case prev of None \<Rightarrow> True | Some c \<Rightarrow> multiline f \<and> is_line_terminator c)"

definition at_eol :: "flags \<Rightarrow> string \<Rightarrow> bool" where
  "at_eol f rest = (case rest of [] \<Rightarrow> True | c # _ \<Rightarrow> multiline f \<and> is_line_terminator c)"

definition at_wordb :: "char option \<Rightarrow> string \<Rightarrow> bool" where
  "at_wordb prev rest =
     ((case prev of None \<Rightarrow> False | Some c \<Rightarrow> is_word c) \<noteq>
      (case rest of [] \<Rightarrow> False | c # _ \<Rightarrow> is_word c))"

fun rx :: "flags \<Rightarrow> re \<Rightarrow> mstate \<Rightarrow> (mstate \<Rightarrow> 'a option) \<Rightarrow> 'a option" where
  "rx f (Atom cs) (g, prev, rest) k =
     (case rest of [] \<Rightarrow> None | c # r \<Rightarrow> if member_cs f cs c then k (g, Some c, r) else None)"
| "rx f (Rep cs lo hi greedy) (g, prev, rest) k =
     reps (member_cs f cs) lo hi greedy prev rest (\<lambda>pv r. k (g, pv, r))"
| "rx f (Seq a b) st k = rx f a st (\<lambda>st'. rx f b st' k)"
| "rx f (Alt a b) st k = (case rx f a st k of Some r \<Rightarrow> Some r | None \<Rightarrow> rx f b st k)"
| "rx f (Group n a) (g, prev, rest) k =
     rx f a (g, prev, rest) (\<lambda>(g', pv, r). k (g'(n \<mapsto> (rest, r)), pv, r))"
| "rx f Bol (g, prev, rest) k = (if at_bol f prev then k (g, prev, rest) else None)"
| "rx f Eol (g, prev, rest) k = (if at_eol f rest then k (g, prev, rest) else None)"
| "rx f WordB (g, prev, rest) k = (if at_wordb prev rest then k (g, prev, rest) else None)"
| "rx f Eps st k = k st"

text \<open>A match that starts at the given position: its captures and the input after it.\<close>

definition match_at :: "flags \<Rightarrow> re \<Rightarrow> char option \<Rightarrow> string \<Rightarrow> (caps \<times> string) option" where
  "match_at f r prev s = rx f r (Map.empty, prev, s) (\<lambda>(g, pv, rest). Some (g, rest))"

text \<open>
  The first match in a string (\<^verbatim>\<open>RegExp.prototype.exec\<close> from index 0): the positions are
  tried from left to right. The result is the text before the match, the captures, the
  input from the start of the match and the input after the match.
\<close>

type_synonym found = "string \<times> caps \<times> string \<times> string"

fun search :: "flags \<Rightarrow> re \<Rightarrow> char option \<Rightarrow> string \<Rightarrow> found option" where
  "search f r prev [] =
     (case match_at f r prev [] of None \<Rightarrow> None | Some (g, rest) \<Rightarrow> Some ([], g, [], rest))"
| "search f r prev (c # s) =
     (case match_at f r prev (c # s) of
        Some (g, rest) \<Rightarrow> Some ([], g, c # s, rest)
      | None \<Rightarrow>
          (case search f r (Some c) s of
             None \<Rightarrow> None
           | Some (skipped, m) \<Rightarrow> Some (c # skipped, m)))"

text \<open>\<^verbatim>\<open>s.match(r)\<close> and \<^verbatim>\<open>r.exec(s)\<close> for a pattern without the flag \<^verbatim>\<open>g\<close>, and \<^verbatim>\<open>r.test(s)\<close>.\<close>

definition match_re :: "flags \<Rightarrow> re \<Rightarrow> string \<Rightarrow> found option" where
  "match_re f r s = search f r None s"

definition test :: "flags \<Rightarrow> re \<Rightarrow> string \<Rightarrow> bool" where
  "test f r s = (search f r None s \<noteq> None)"

text \<open>The text between two positions of the input, the later one given by the input
  that is left there.\<close>

definition between :: "string \<Rightarrow> string \<Rightarrow> string" where
  "between a b = take (length a - length b) a"

text \<open>\<^verbatim>\<open>m[n]\<close> of a match: the text of group \<open>n\<close>, \<open>None\<close> (\<^verbatim>\<open>undefined\<close>) for a group that took
  no part in the match.\<close>

definition group :: "found \<Rightarrow> nat \<Rightarrow> string option" where
  "group m n = (case m of (_, g, _, _) \<Rightarrow> map_option (\<lambda>(a, b). between a b) (g n))"

text \<open>
  \<open>group_text m n\<close> reads a group that takes part in every match of its pattern. (The source
  calls string methods on such groups; on \<^verbatim>\<open>undefined\<close> they would throw.)
\<close>

definition group_text :: "found \<Rightarrow> nat \<Rightarrow> string" where
  "group_text m n = (case group m n of Some t \<Rightarrow> t | None \<Rightarrow> [])"

text \<open>\<^verbatim>\<open>s.replace(r, repl)\<close> for a pattern without the flag \<^verbatim>\<open>g\<close> (the replacement strings of
  the source contain no \<^verbatim>\<open>$\<close>).\<close>

definition replace_first :: "flags \<Rightarrow> re \<Rightarrow> string \<Rightarrow> string \<Rightarrow> string" where
  "replace_first f r repl s =
     (case search f r None s of None \<Rightarrow> s | Some (skipped, g, from, rest) \<Rightarrow> skipped @ repl @ rest)"

text \<open>
  \<^verbatim>\<open>s.replace(r, repl)\<close> for a pattern with the flag \<^verbatim>\<open>g\<close>: every match, from left to right,
  the next search starting where the match ended, one character further after an empty
  match. \<open>n\<close> counts the characters of the current match that are still to be passed.
\<close>

fun replace_from :: "flags \<Rightarrow> re \<Rightarrow> string \<Rightarrow> char option \<Rightarrow> string \<Rightarrow> nat \<Rightarrow> string" where
  "replace_from f r repl prev [] n =
     (case match_at f r prev [] of None \<Rightarrow> [] | Some _ \<Rightarrow> repl)"
| "replace_from f r repl prev (c # s) n =
     (if 0 < n then replace_from f r repl (Some c) s (n - 1)
      else
        (case match_at f r prev (c # s) of
           None \<Rightarrow> c # replace_from f r repl (Some c) s 0
         | Some (g, rest) \<Rightarrow>
             (if length rest = Suc (length s) then repl @ c # replace_from f r repl (Some c) s 0
              else repl @ replace_from f r repl (Some c) s (length s - length rest))))"

definition replace_all :: "flags \<Rightarrow> re \<Rightarrow> string \<Rightarrow> string \<Rightarrow> string" where
  "replace_all f r repl s = replace_from f r repl None s 0"

text \<open>
  \<^verbatim>\<open>s.split(r)\<close> for a pattern without groups: the pattern is tried at every position \<open>q\<close>
  before the end of the input; a match that ends where the current piece starts is
  passed over. \<open>cur\<close> is the current piece, \<open>n\<close> counts the characters of the current
  separator that are still to be passed.
\<close>

fun split_from :: "flags \<Rightarrow> re \<Rightarrow> char option \<Rightarrow> string \<Rightarrow> string \<Rightarrow> nat \<Rightarrow> string list" where
  "split_from f r prev [] cur n = [cur]"
| "split_from f r prev (c # s) cur n =
     (if 0 < n then split_from f r (Some c) s cur (n - 1)
      else
        (case match_at f r prev (c # s) of
           None \<Rightarrow> split_from f r (Some c) s (cur @ [c]) 0
         | Some (g, rest) \<Rightarrow>
             (if length rest = Suc (length s)
              then (if cur = [] then split_from f r (Some c) s [c] 0
                    else cur # split_from f r (Some c) s [c] 0)
              else cur # split_from f r (Some c) s [] (length s - length rest))))"

definition split :: "flags \<Rightarrow> re \<Rightarrow> string \<Rightarrow> string list" where
  "split f r s =
     (if s = [] then (if match_at f r None [] = None then [[]] else [])
      else split_from f r None s [] 0)"

subsection \<open>Writing patterns\<close>

definition chr :: "char \<Rightarrow> re" where
  "chr c = Atom (Cls (\<lambda>x. x = c))"

fun lit :: "string \<Rightarrow> re" where
  "lit [] = Eps"
| "lit [c] = chr c"
| "lit (c # cs) = Seq (chr c) (lit cs)"

fun seqs :: "re list \<Rightarrow> re" where
  "seqs [] = Eps"
| "seqs [a] = a"
| "seqs (a # as) = Seq a (seqs as)"

fun alts :: "re list \<Rightarrow> re" where
  "alts [] = Eps"
| "alts [a] = a"
| "alts (a # as) = Alt a (alts as)"

text \<open>\<^verbatim>\<open>.\<close>, \<^verbatim>\<open>\s\<close>, \<^verbatim>\<open>\d\<close> and \<^verbatim>\<open>[A-Za-z]\<close>\<close>

definition dot :: cset where
  "dot = NotCls is_line_terminator"

definition space :: cset where
  "space = Cls is_space"

definition digit :: cset where
  "digit = Cls is_digit"

definition letter :: cset where
  "letter = Cls is_ascii_letter"

text \<open>The quantifiers \<^verbatim>\<open>*\<close>, \<^verbatim>\<open>+\<close>, \<^verbatim>\<open>?\<close>, \<^verbatim>\<open>{n,}\<close> and the lazy \<^verbatim>\<open>*?\<close>, \<^verbatim>\<open>+?\<close>\<close>

definition star :: "cset \<Rightarrow> re" where
  "star cs = Rep cs 0 None True"

definition plus :: "cset \<Rightarrow> re" where
  "plus cs = Rep cs 1 None True"

definition opt :: "cset \<Rightarrow> re" where
  "opt cs = Rep cs 0 (Some 1) True"

definition at_least :: "nat \<Rightarrow> cset \<Rightarrow> re" where
  "at_least n cs = Rep cs n None True"

definition star_lazy :: "cset \<Rightarrow> re" where
  "star_lazy cs = Rep cs 0 None False"

definition plus_lazy :: "cset \<Rightarrow> re" where
  "plus_lazy cs = Rep cs 1 None False"

text \<open>No flag, \<^verbatim>\<open>/i\<close>, \<^verbatim>\<open>/m\<close> and \<^verbatim>\<open>/mi\<close>\<close>

definition F0 :: flags where
  "F0 = Flags False False"

definition Fi :: flags where
  "Fi = Flags True False"

definition Fm :: flags where
  "Fm = Flags False True"

definition Fmi :: flags where
  "Fmi = Flags True True"

section \<open>The command executor\<close>

text \<open>
  The fields of \<^verbatim>\<open>VstfsConfig\<close> (\<^verbatim>\<open>authType\<close> and \<^verbatim>\<open>auth\<close> are the constant
  \<^verbatim>\<open>"integrated"\<close> and are left out; the configuration's own \<^verbatim>\<open>tfPath\<close> is \<open>cfg_tfPath\<close>).
\<close>

record VstfsConfig =
  serverUrl :: string
  project :: string
  workspace :: string
  cfg_tfPath :: string
  root :: string
  serverPath :: string

text \<open>
  An object of class \<^verbatim>\<open>TFVC\<close>. \<^verbatim>\<open>config\<close> is optional in the constructor. \<open>collectionUrl\<close>
  is the string \<^verbatim>\<open>getCollectionUrl()\<close> returns: the method computes it from
  \<^verbatim>\<open>config.serverUrl\<close> alone, with the platform's \<^verbatim>\<open>URL\<close> class, which is not part of the
  repository. The process environment and the output channel (logging) are not modelled.
\<close>

record TFVC =
  tfPath :: string
  cwd :: string
  config :: "VstfsConfig option"
  collectionUrl :: string

definition cfg_serverUrl :: "TFVC \<Rightarrow> string option" where
  "cfg_serverUrl t = map_option serverUrl (config t)"

definition cfg_workspace :: "TFVC \<Rightarrow> string option" where
  "cfg_workspace t = map_option workspace (config t)"

definition cfg_serverPath :: "TFVC \<Rightarrow> string option" where
  "cfg_serverPath t = map_option serverPath (config t)"

text \<open>
  One run of \<^verbatim>\<open>TF.exe\<close> through \<^verbatim>\<open>execFile\<close>: the arguments and the \<^verbatim>\<open>windowsHide\<close>
  option. The callback of \<^verbatim>\<open>execFile\<close> receives \<^verbatim>\<open>(err, stdout, stderr)\<close>; \<open>failure\<close> is
  \<^verbatim>\<open>String(err)\<close> when \<^verbatim>\<open>err\<close> is set.
\<close>

datatype call = Call (windowsHide: bool) (argv: "string list")

record outcome =
  failure :: "string option"
  stdout :: string
  stderr :: string

text \<open>
  The world outside the program: the history of the runs made so far, and the external
  tool, which answers the last run of a history (so its answer may depend on everything
  that was run before).
\<close>

type_synonym world = "call list"

type_synonym tool = "call list \<Rightarrow> outcome"

text \<open>A JavaScript \<^verbatim>\<open>Error\<close> with its message; \<^verbatim>\<open>String(e)\<close> of an \<^verbatim>\<open>Error\<close>.\<close>

datatype error = Error (message: string)

definition String_of_error :: "error \<Rightarrow> string" where
  "String_of_error e = (if message e = [] then ''Error'' else ''Error: '' @ message e)"

text \<open>What a successful run resolves to: \<^verbatim>\<open>{ stdout, stderr }\<close>.\<close>

type_synonym streams = "string \<times> string"

text \<open>\<^verbatim>\<open>isAuthError\<close>\<close>

definition isAuthError :: "string \<Rightarrow> bool" where
  "isAuthError msg =
     (let m = toLowerCase msg in
        includes_str m ''tf30063'' \<or> includes_str m ''not authorized'' \<or>
        includes_str m ''unauthorized'' \<or> includes_str m ''401'')"

text \<open>\<^verbatim>\<open>execOnce\<close> and \<^verbatim>\<open>execVisibleOnce\<close>: the promise is rejected with
  \<^verbatim>\<open>new Error(stderr || stdout || String(err))\<close> when \<^verbatim>\<open>err\<close> is set.\<close>

definition exec_call :: "bool \<Rightarrow> tool \<Rightarrow> string list \<Rightarrow> world \<Rightarrow> (error + streams) \<times> world" where
  "exec_call hide tf args w =
     (let w' = w @ [Call hide args]; r = tf w' in
        (case failure r of
           Some e \<Rightarrow>
             Inl (Error (if stderr r \<noteq> [] then stderr r else if stdout r \<noteq> [] then stdout r else e))
         | None \<Rightarrow> Inr (stdout r, stderr r),
         w'))"

definition execOnce :: "tool \<Rightarrow> string list \<Rightarrow> world \<Rightarrow> (error + streams) \<times> world" where
  "execOnce = exec_call True"

definition execVisibleOnce :: "tool \<Rightarrow> string list \<Rightarrow> world \<Rightarrow> (error + streams) \<times> world" where
  "execVisibleOnce = exec_call False"

text \<open>\<^verbatim>\<open>signIn\<close>: an error of the visible run is caught and logged.\<close>

definition signIn :: "TFVC \<Rightarrow> tool \<Rightarrow> world \<Rightarrow> (error + unit) \<times> world" where
  "signIn t tf w =
     (if \<not> truthy (cfg_serverUrl t)
      then (Inl (Error ''VSTFS: serverUrl is not configured. Set 'vstfs.serverUrl' in settings.''), w)
      else
        (case execVisibleOnce tf [''workspaces'', ''/collection:'' @ collectionUrl t] w of
           (_, w') \<Rightarrow> (Inr (), w')))"

text \<open>\<^verbatim>\<open>String(e?.message || e)\<close>, the message \<^verbatim>\<open>execWithAuthRetry\<close> examines.\<close>

definition caught_message :: "error \<Rightarrow> string" where
  "caught_message e = (if message e \<noteq> [] then message e else String_of_error e)"

text \<open>\<^verbatim>\<open>execWithAuthRetry\<close>\<close>

definition execWithAuthRetry :: "TFVC \<Rightarrow> tool \<Rightarrow> string list \<Rightarrow> world \<Rightarrow> (error + streams) \<times> world" where
  "execWithAuthRetry t tf args w =
     (case execOnce tf args w of
        (Inr out, w1) \<Rightarrow> (Inr out, w1)
      | (Inl e, w1) \<Rightarrow>
          (let msg = caught_message e in
             if isAuthError msg \<and> truthy (cfg_serverUrl t)
             then
               (case signIn t tf w1 of
                  (Inl e', w2) \<Rightarrow> (Inl e', w2)
                | (Inr _, w2) \<Rightarrow> execOnce tf args w2)
             else (Inl e, w1)))"

section \<open>The path normalizer\<close>

text \<open>Characters that cannot stand in a string literal.\<close>

definition bslash :: char where
  "bslash = CHR 0x5C"

definition LF :: char where
  "LF = CHR 0x0A"

definition CR :: char where
  "CR = CHR 0x0D"

definition NUL :: char where
  "NUL = CHR 0x00"

text \<open>
  Numbers. A changeset id is a JavaScript number, a double: \<open>Whole n\<close> is the number whose
  value is the integer \<open>n\<close> (which is then a value a double can have; the two zeros are not
  told apart, as neither \<^verbatim>\<open>===\<close> nor \<^verbatim>\<open>String\<close> does), and \<open>Other s\<close> is any other number, a
  fractional one, an infinity or \<^verbatim>\<open>NaN\<close>, given by the text that \<^verbatim>\<open>String\<close> prints for it.
  \<open>strict_equal\<close> is \<^verbatim>\<open>===\<close> on numbers: \<^verbatim>\<open>NaN\<close> is not equal to itself.
\<close>

datatype number = Whole int | Other string

fun strict_equal :: "number \<Rightarrow> number \<Rightarrow> bool" where
  "strict_equal (Whole a) (Whole b) = (a = b)"
| "strict_equal (Other a) (Other b) = (a = b \<and> a \<noteq> ''NaN'')"
| "strict_equal _ _ = False"

text \<open>
  \<^verbatim>\<open>Number(s)\<close> of a string of decimal digits: the double nearest to the value of the
  digits, the one with an even significand when two are equally near, and \<^verbatim>\<open>Infinity\<close>
  from \<open>2\<^sup>1\<^sup>0\<^sup>2\<^sup>4 - 2\<^sup>9\<^sup>7\<^sup>0\<close> on. Every natural number below \<open>2\<^sup>5\<^sup>3\<close> is a double; a larger
  one is a double when it is a multiple of \<open>2\<^sup>e\<close>, where \<open>e\<close> is the number of its binary
  digits less 53.
\<close>

function bit_length :: "int \<Rightarrow> nat" where
  "bit_length n = (if n \<le> 0 then 0 else Suc (bit_length (n div 2)))"
  by pat_completeness auto

termination
  by (relation "measure nat") auto

declare bit_length.simps [simp del]

definition round_double :: "int \<Rightarrow> int" where
  "round_double v =
     (if v < 2 ^ 53 then v
      else
        (let e = bit_length v - 53; q = v div 2 ^ e; r = v mod 2 ^ e
         in if 2 ^ e < 2 * r \<or> (2 * r = 2 ^ e \<and> odd q) then (q + 1) * 2 ^ e else q * 2 ^ e))"

definition decimal :: "string \<Rightarrow> int" where
  "decimal ds = foldl (\<lambda>n c. 10 * n + (int (code c) - 48)) 0 ds"

definition Number :: "string \<Rightarrow> number" where
  "Number ds =
     (let v = round_double (decimal ds) in if v < 2 ^ 1024 then Whole v else Other ''Infinity'')"

text \<open>
  \<^verbatim>\<open>String(x)\<close> of a number, which is also what a template literal prints. A whole number
  is printed with its sign when it is negative and, without the sign, as its decimal
  digits when it is below \<open>10\<^sup>2\<^sup>1\<close>, and from there on in the exponent form \<^verbatim>\<open>d.ddde+n\<close>
  with the fewest digits that \<^verbatim>\<open>Number\<close> reads back as the same double (of two candidates
  with as many digits, the nearer one, and the even one when they are equally near).
\<close>

definition digit_char :: "nat \<Rightarrow> char" where
  "digit_char d = ''0123456789'' ! d"

function dec :: "int \<Rightarrow> string" where
  "dec n = (if n < 10 then [digit_char (nat n)] else dec (n div 10) @ [digit_char (nat (n mod 10))])"
  by pat_completeness auto

termination
  by (relation "measure nat") auto

declare dec.simps [simp del]

text \<open>The digits \<open>s\<close> with \<open>k\<close> places, if any, for which \<open>s \<times> 10\<^sup>d\<^sup>-\<^sup>k\<close> is read back as \<open>x\<close>.\<close>

definition digits_at :: "int \<Rightarrow> nat \<Rightarrow> nat \<Rightarrow> int option" where
  "digits_at x d k =
     (let p = 10 ^ (d - k); lo = x div p; hi = lo + 1;
          ok_lo = (round_double (lo * p) = x);
          ok_hi = (hi < 10 ^ k \<and> round_double (hi * p) = x)
      in if ok_lo \<and> ok_hi
         then (if x - lo * p < hi * p - x then Some lo
               else if hi * p - x < x - lo * p then Some hi
               else if even lo then Some lo else Some hi)
         else if ok_lo then Some lo else if ok_hi then Some hi else None)"

function shortest_digits :: "int \<Rightarrow> nat \<Rightarrow> nat \<Rightarrow> int" where
  "shortest_digits x d k =
     (if d \<le> k then x
      else (case digits_at x d k of Some s \<Rightarrow> s | None \<Rightarrow> shortest_digits x d (Suc k)))"
  by pat_completeness auto

termination
  by (relation "measure (\<lambda>(x, d, k). d - k)") auto

declare shortest_digits.simps [simp del]

definition exponential :: "int \<Rightarrow> string" where
  "exponential x =
     (let d = length (dec x) in
        if round_double (10 ^ d) = x then ''1e+'' @ dec (int d)
        else
          (case dec (shortest_digits x d 1) of
             c # cs \<Rightarrow> c # (if cs = [] then [] else CHR ''.'' # cs) @ ''e+'' @ dec (int d - 1)
           | [] \<Rightarrow> []))"

definition unsigned :: "int \<Rightarrow> string" where
  "unsigned n = (if n < 10 ^ 21 then dec n else exponential n)"

definition String_of_number :: "number \<Rightarrow> string" where
  "String_of_number x =
     (case x of
        Other s \<Rightarrow> s
      | Whole n \<Rightarrow> if n < 0 then CHR ''-'' # unsigned (- n) else unsigned n)"

text \<open>\<^verbatim>\<open>/;C\d+$/i\<close>, \<^verbatim>\<open>/^[A-Za-z]:\\/\<close>, \<^verbatim>\<open>/^\/?/\<close>, \<^verbatim>\<open>/^\$\//\<close>, and the one-character patterns of
  \<^verbatim>\<open>/\\/g\<close> and \<^verbatim>\<open>/\//g\<close>\<close>

definition re_changeset_suffix :: re where
  "re_changeset_suffix = seqs [chr (CHR '';''), chr (CHR ''C''), plus digit, Eol]"

definition re_local :: re where
  "re_local = seqs [Bol, Atom letter, chr (CHR '':''), chr bslash]"

definition re_leading_slash :: re where
  "re_leading_slash = seqs [Bol, opt (Cls (\<lambda>x. x = CHR ''/''))]"

definition re_server :: re where
  "re_server = seqs [Bol, chr (CHR ''$''), chr (CHR ''/'')]"

definition to_slashes :: "string \<Rightarrow> string" where
  "to_slashes s = replace_all F0 (chr bslash) ''/'' s"

definition to_backslashes :: "string \<Rightarrow> string" where
  "to_backslashes s = replace_all F0 (chr (CHR ''/'')) [bslash] s"

definition strip_changeset :: "string \<Rightarrow> string" where
  "strip_changeset s = replace_first Fi re_changeset_suffix [] s"

text \<open>
  \<^verbatim>\<open>toLocalPath\<close>. \<open>join\<close> stands for \<^verbatim>\<open>path.join\<close> of the platform's \<^verbatim>\<open>path\<close> module, which is
  not part of the repository; it is always called with two strings.
\<close>

definition toLocalPath :: "(string \<Rightarrow> string \<Rightarrow> string) \<Rightarrow> TFVC \<Rightarrow> string \<Rightarrow> string" where
  "toLocalPath join t serverOrLocalPath =
     (let cleaned = strip_changeset serverOrLocalPath in
        if test F0 re_local cleaned then cleaned
        else if truthy (cfg_serverPath t) \<and> prefix (the_string (cfg_serverPath t)) cleaned
        then
          (let rel = to_slashes (replace_first F0 re_leading_slash []
                        (drop (length (the_string (cfg_serverPath t))) cleaned))
           in to_backslashes (join (cwd t) rel))
        else if test F0 re_server cleaned
        then to_backslashes (join (cwd t) (to_slashes (replace_first F0 re_server [] cleaned)))
        else to_backslashes (join (cwd t) cleaned))"

text \<open>
  A stand-in for \<^verbatim>\<open>path.join\<close> in concrete runs: what \<^verbatim>\<open>path.join\<close> returns on Windows for a
  directory without a trailing separator and a relative path without empty, \<^verbatim>\<open>.\<close> or \<^verbatim>\<open>..\<close>
  segments, up to the separators inside the relative path, which \<^verbatim>\<open>toLocalPath\<close> rewrites to
  backslashes in any case.
\<close>

definition win_join_plain :: "string \<Rightarrow> string \<Rightarrow> string" where
  "win_join_plain dir rel = dir @ [bslash] @ rel"

section \<open>The parsers\<close>

text \<open>\<^verbatim>\<open>TFPendingItem\<close>; its field \<^verbatim>\<open>file\<close> is \<open>filePath\<close> here. At run time \<^verbatim>\<open>action\<close> is the
  string the parser stores.\<close>

record TFPendingItem =
  filePath :: string
  action :: string

text \<open>\<open>date\<close> is the text handed to \<^verbatim>\<open>new Date(...)\<close>; the parsing of dates, which depends on
  the host, is not modelled.\<close>

record TFFileChange =
  path :: string
  change :: string

record TFHistoryItem =
  changesetId :: number
  author :: string
  date :: string
  comment :: string
  files :: "TFFileChange list"

text \<open>\<^verbatim>\<open>/\r?\n/\<close>, \<^verbatim>\<open>/^-{3,}/\<close> and the words \<^verbatim>\<open>(add|edit|delete|rename|merge|branch)\<close>\<close>

definition re_newline :: re where
  "re_newline = seqs [opt (Cls (\<lambda>x. x = CR)), chr LF]"

definition re_dashes3 :: re where
  "re_dashes3 = seqs [Bol, at_least 3 (Cls (\<lambda>x. x = CHR ''-''))]"

definition change_words :: "string list" where
  "change_words = [''add'', ''edit'', ''delete'', ''rename'', ''merge'', ''branch'']"

definition re_change_words :: re where
  "re_change_words = alts (map lit change_words)"

subsection \<open>\<^verbatim>\<open>parsePendingDetailed\<close>\<close>

text \<open>\<^verbatim>\<open>/^(\$\/|[A-Za-z]:\\)/\<close> and \<^verbatim>\<open>/^change:\s*(add|edit|delete|rename|merge|branch)\b/i\<close>\<close>

definition re_path_line :: re where
  "re_path_line =
     seqs [Bol, Group 1 (Alt (lit ''$/'') (seqs [Atom letter, chr (CHR '':''), chr bslash]))]"

definition re_change_line :: re where
  "re_change_line = seqs [Bol, lit ''change:'', star space, Group 1 re_change_words, WordB]"

text \<open>The state of the loop: \<^verbatim>\<open>items\<close> and \<^verbatim>\<open>currentPath\<close>.\<close>

type_synonym detailed_state = "TFPendingItem list \<times> string option"

definition detailed_step :: "detailed_state \<Rightarrow> string \<Rightarrow> detailed_state" where
  "detailed_step st raw =
     (case st of (items, currentPath) \<Rightarrow>
        (let line = trim raw in
           if line = [] then (items, currentPath)
           else if test F0 re_path_line line then (items, Some line)
           else
             (case (match_re Fi re_change_line line, truthy currentPath) of
                (Some changeMatch, True) \<Rightarrow>
                  (items @ [\<lparr>filePath = the_string currentPath,
                             action = toLowerCase (group_text changeMatch 1)\<rparr>],
                   None)
              | _ \<Rightarrow>
                  if test F0 re_dashes3 line then (items, None) else (items, currentPath))))"

definition parsePendingDetailed :: "string \<Rightarrow> TFPendingItem list" where
  "parsePendingDetailed out = fst (foldl detailed_step ([], None) (split F0 re_newline out))"

subsection \<open>\<^verbatim>\<open>parsePending\<close>\<close>

text \<open>
  The patterns of \<^verbatim>\<open>tryParseRow\<close>:
  \<^verbatim>\<open>/^(.+?)\s{2,}([A-Za-z, ]+?)\s{2,}(.+)$/\<close>,
  \<^verbatim>\<open>/^(.+?)\s{1,}([A-Za-z, ]+?)\s{2,}(.+)$/\<close>,
  \<^verbatim>\<open>/\b(add|edit|delete|rename|merge|branch)\b/i\<close>,
  \<^verbatim>\<open>/^(add|edit|delete|rename|merge|branch)\s+(.+)$/i\<close>,
  \<^verbatim>\<open>/^(\$\/.*?);\s*(add|edit|delete|rename|merge|branch)\s*$/i\<close> and
  \<^verbatim>\<open>/^(.:\\[^-]+?)\s*-\s+(add|edit|delete|rename|merge|branch)\s*$/i\<close>.
\<close>

definition change_column :: cset where
  "change_column = Cls (\<lambda>c. is_ascii_letter c \<or> c = CHR '','' \<or> c = CHR '' '')"

definition re_table_row :: "nat \<Rightarrow> re" where
  "re_table_row n =
     seqs [Bol, Group 1 (plus_lazy dot), at_least n space, Group 2 (plus_lazy change_column),
           at_least 2 space, Group 3 (plus dot), Eol]"

definition re_action_word :: re where
  "re_action_word = seqs [WordB, Group 1 re_change_words, WordB]"

definition re_action_first :: re where
  "re_action_first = seqs [Bol, Group 1 re_change_words, plus space, Group 2 (plus dot), Eol]"

definition re_server_item :: re where
  "re_server_item =
     seqs [Bol, Group 1 (seqs [lit ''$/'', star_lazy dot]), chr (CHR '';''), star space,
           Group 2 re_change_words, star space, Eol]"

definition re_local_item :: re where
  "re_local_item =
     seqs [Bol, Group 1 (seqs [Atom dot, chr (CHR '':''), chr bslash, plus_lazy (NotCls (\<lambda>x. x = CHR ''-''))]),
           star space, chr (CHR ''-''), plus space, Group 2 re_change_words, star space, Eol]"

text \<open>The 3-column match of \<^verbatim>\<open>tryParseRow\<close>: the first pattern, then the second.\<close>

definition table_match :: "string \<Rightarrow> found option" where
  "table_match trimmed =
     (case match_re F0 (re_table_row 2) trimmed of
        Some m \<Rightarrow> Some m
      | None \<Rightarrow> match_re F0 (re_table_row 1) trimmed)"

text \<open>\<^verbatim>\<open>tryParseRow\<close>, a closure over \<^verbatim>\<open>currentServerFolder\<close>.\<close>

definition tryParseRow :: "string option \<Rightarrow> string \<Rightarrow> TFPendingItem option" where
  "tryParseRow currentServerFolder row =
     (let trimmed = trim row in
        case table_match trimmed of
          Some table \<Rightarrow>
            (let nameCol = trim (group_text table 1);
                 changeCol = trim (group_text table 2);
                 localCol = trim (group_text table 3);
                 act = (case match_re Fi re_action_word changeCol of
                          Some actionMatch \<Rightarrow> toLowerCase (group_text actionMatch 1)
                        | None \<Rightarrow> toLowerCase ''edit'')
             in Some \<lparr>filePath =
                        (if test F0 re_local localCol then localCol
                         else if truthy currentServerFolder
                         then to_slashes (the_string currentServerFolder) @ ''/'' @ nameCol
                         else nameCol),
                      action = act\<rparr>)
        | None \<Rightarrow>
            (case match_re Fi re_action_first trimmed of
               Some m \<Rightarrow> Some \<lparr>filePath = trim (group_text m 2), action = toLowerCase (group_text m 1)\<rparr>
             | None \<Rightarrow>
                 (case match_re Fi re_server_item trimmed of
                    Some m \<Rightarrow> Some \<lparr>filePath = trim (group_text m 1), action = toLowerCase (group_text m 2)\<rparr>
                  | None \<Rightarrow>
                      (case match_re Fi re_local_item trimmed of
                         Some m \<Rightarrow>
                           Some \<lparr>filePath = trim (group_text m 1), action = toLowerCase (group_text m 2)\<rparr>
                       | None \<Rightarrow> None))))"

text \<open>
  The patterns of the loop:
  \<^verbatim>\<open>/^File\s+name\s+Change\s+Local\s+path/i\<close>,
  \<^verbatim>\<open>/^There are no pending changes\.?$/i\<close>,
  \<^verbatim>\<open>/^(Collection|Workspace|User):/i\<close>,
  \<^verbatim>\<open>/\s{2,}/\<close>,
  \<^verbatim>\<open>/\.(cs|asset|mat|png|jpg|prefab|meta)$/i\<close>, \<^verbatim>\<open>/\.\.\.$/\<close> and
  \<^verbatim>\<open>/\b(add|edit|delete|rename|merge|branch)\b\s+([A-Za-z]:\\.+)$/i\<close>;
  \<^verbatim>\<open>/\u0000/g\<close> and \<^verbatim>\<open>/\s+$/g\<close> clean the lines.
\<close>

definition re_header :: re where
  "re_header =
     seqs [Bol, lit ''File'', plus space, lit ''name'', plus space, lit ''Change'', plus space,
           lit ''Local'', plus space, lit ''path'']"

definition re_no_pending :: re where
  "re_no_pending = seqs [Bol, lit ''There are no pending changes'', opt (Cls (\<lambda>x. x = CHR ''.'')), Eol]"

definition re_banner :: re where
  "re_banner =
     seqs [Bol, Group 1 (alts [lit ''Collection'', lit ''Workspace'', lit ''User'']), chr (CHR '':'')]"

definition re_two_spaces :: re where
  "re_two_spaces = at_least 2 space"

definition re_asset_name :: re where
  "re_asset_name =
     seqs [chr (CHR ''.''),
           Group 1 (alts (map lit [''cs'', ''asset'', ''mat'', ''png'', ''jpg'', ''prefab'', ''meta''])), Eol]"

definition re_ellipsis :: re where
  "re_ellipsis = seqs [lit ''...'', Eol]"

definition re_action_local :: re where
  "re_action_local =
     seqs [WordB, Group 1 re_change_words, WordB, plus space,
           Group 2 (seqs [Atom letter, chr (CHR '':''), chr bslash, plus dot]), Eol]"

definition re_trailing_space :: re where
  "re_trailing_space = seqs [plus space, Eol]"

text \<open>The lines the loop runs over.\<close>

definition pending_lines :: "string \<Rightarrow> string list" where
  "pending_lines out =
     filter (\<lambda>l. 0 < length (trim l))
       (map (\<lambda>l. replace_all F0 re_trailing_space [] (replace_all F0 (chr NUL) [] l))
          (split F0 re_newline out))"

text \<open>The state of the loop: the variables \<^verbatim>\<open>items\<close>, \<^verbatim>\<open>currentServerFolder\<close>, \<^verbatim>\<open>buffer\<close> and
  \<^verbatim>\<open>pendingNameFragment\<close>, and the lines written with \<^verbatim>\<open>console.log\<close>.\<close>

record pending_state =
  items :: "TFPendingItem list"
  currentServerFolder :: "string option"
  buffer :: string
  pendingNameFragment :: "string option"
  console :: "string list"

definition is_ignored :: "string \<Rightarrow> bool" where
  "is_ignored line =
     (test F0 re_dashes3 line \<or> test Fi re_header line \<or> test Fi re_no_pending line \<or>
      test Fi re_banner line)"

definition is_folder_header :: "string \<Rightarrow> bool" where
  "is_folder_header line = (test F0 re_server line \<and> \<not> test F0 re_two_spaces line)"

definition is_name_fragment :: "string \<Rightarrow> bool" where
  "is_name_fragment line =
     (\<not> test F0 re_two_spaces line \<and> test Fi re_asset_name (replace_first F0 re_ellipsis [] line))"

text \<open>The pairing of a pending name with a line \<^verbatim>\<open>ACTION   C:\path\<close>.\<close>

definition pair_match :: "string option \<Rightarrow> string \<Rightarrow> found option" where
  "pair_match fragment line = (if truthy fragment then match_re Fi re_action_local line else None)"

definition accumulate :: "string \<Rightarrow> string \<Rightarrow> string" where
  "accumulate buf line = (if buf \<noteq> [] then buf @ '' '' @ line else line)"

definition dropped_message :: "string \<Rightarrow> string" where
  "dropped_message buf = ''VSTFS: Dropping oversized pending row buffer: '' @ take 120 buf @ ''...''"

definition pending_step :: "pending_state \<Rightarrow> string \<Rightarrow> pending_state" where
  "pending_step st raw =
     (let line = trim raw in
        if is_ignored line then st
        else if is_folder_header line
        then st\<lparr>currentServerFolder := Some line, buffer := [], pendingNameFragment := None\<rparr>
        else if is_name_fragment line then st\<lparr>pendingNameFragment := Some line\<rparr>
        else
          (case pair_match (pendingNameFragment st) line of
             Some m \<Rightarrow>
               st\<lparr>items := items st @ [\<lparr>filePath = trim (group_text m 2), action = toLowerCase (group_text m 1)\<rparr>],
                  pendingNameFragment := None\<rparr>
           | None \<Rightarrow>
               (case tryParseRow (currentServerFolder st) line of
                  Some parsed \<Rightarrow>
                    st\<lparr>items := items st @ [parsed], buffer := [], pendingNameFragment := None\<rparr>
                | None \<Rightarrow>
                    (let buf = accumulate (buffer st) line in
                       case tryParseRow (currentServerFolder st) buf of
                         Some parsed \<Rightarrow>
                           st\<lparr>items := items st @ [parsed], buffer := [], pendingNameFragment := None\<rparr>
                       | None \<Rightarrow>
                           if 500 < length buf
                           then st\<lparr>buffer := [], pendingNameFragment := None,
                                   console := console st @ [dropped_message buf]\<rparr>
                           else st\<lparr>buffer := buf\<rparr>))))"

definition pending_init :: "string list \<Rightarrow> pending_state" where
  "pending_init out =
     \<lparr>items = [], currentServerFolder = None, buffer = [], pendingNameFragment = None, console = out\<rparr>"

text \<open>\<^verbatim>\<open>parsePending\<close> with the console it writes to, and its return value.\<close>

definition parsePending_run :: "string \<Rightarrow> string list \<Rightarrow> TFPendingItem list \<times> string list" where
  "parsePending_run out cons =
     (let st = foldl pending_step (pending_init cons) (pending_lines out) in (items st, console st))"

definition parsePending :: "string \<Rightarrow> TFPendingItem list" where
  "parsePending out = fst (parsePending_run out [])"

subsection \<open>\<^verbatim>\<open>parseHistory\<close>\<close>

text \<open>
  The patterns:
  \<^verbatim>\<open>/^-{5,}\s*$/m\<close>,
  \<^verbatim>\<open>/^\s*Changeset:\s*(\d+)/mi\<close>,
  \<^verbatim>\<open>/^\s*User:\s*(.+)$/mi\<close>,
  \<^verbatim>\<open>/^\s*Date:\s*(.+)$/mi\<close>,
  \<^verbatim>\<open>/^\s*Comment:\s*([\s\S]*?)^\s*Items:/mi\<close>,
  \<^verbatim>\<open>/^\s*Items:\s*$/mi\<close> and
  \<^verbatim>\<open>/^\s*(edit|add|delete|rename|merge)\s+(.*)$/i\<close>.
\<close>

definition re_rule :: re where
  "re_rule = seqs [Bol, at_least 5 (Cls (\<lambda>x. x = CHR ''-'')), star space, Eol]"

definition re_changeset :: re where
  "re_changeset = seqs [Bol, star space, lit ''Changeset:'', star space, Group 1 (plus digit)]"

definition re_user :: re where
  "re_user = seqs [Bol, star space, lit ''User:'', star space, Group 1 (plus dot), Eol]"

definition re_date :: re where
  "re_date = seqs [Bol, star space, lit ''Date:'', star space, Group 1 (plus dot), Eol]"

definition re_comment :: re where
  "re_comment =
     seqs [Bol, star space, lit ''Comment:'', star space, Group 1 (star_lazy (Cls (\<lambda>x. True))),
           Bol, star space, lit ''Items:'']"

definition re_items :: re where
  "re_items = seqs [Bol, star space, lit ''Items:'', star space, Eol]"

definition re_file_line :: re where
  "re_file_line =
     seqs [Bol, star space,
           Group 1 (alts (map lit [''edit'', ''add'', ''delete'', ''rename'', ''merge''])),
           plus space, Group 2 (star dot), Eol]"

text \<open>\<^verbatim>\<open>(m?.[1] || "").trim()\<close>\<close>

definition group1_trimmed :: "found option \<Rightarrow> string" where
  "group1_trimmed m = trim (case m of None \<Rightarrow> [] | Some x \<Rightarrow> group_text x 1)"

definition history_blocks :: "string \<Rightarrow> string list" where
  "history_blocks out = filter (\<lambda>b. b \<noteq> []) (map trim (split Fm re_rule out))"

text \<open>\<^verbatim>\<open>b.split(/^\s*Items:\s*$/mi)[1] || ""\<close>\<close>

definition files_part :: "string \<Rightarrow> string" where
  "files_part b = (case split Fmi re_items b of _ # x # _ \<Rightarrow> x | _ \<Rightarrow> [])"

definition file_step :: "TFFileChange list \<Rightarrow> string \<Rightarrow> TFFileChange list" where
  "file_step fs line =
     (case match_re Fi re_file_line line of
        Some fm \<Rightarrow> fs @ [\<lparr>path = trim (group_text fm 2), change = group_text fm 1\<rparr>]
      | None \<Rightarrow> fs)"

definition block_files :: "string \<Rightarrow> TFFileChange list" where
  "block_files b = foldl file_step [] (split F0 re_newline (files_part b))"

definition history_step :: "TFHistoryItem list \<Rightarrow> string \<Rightarrow> TFHistoryItem list" where
  "history_step acc b =
     (let idMatch = match_re Fmi re_changeset b;
          userMatch = match_re Fmi re_user b;
          dateMatch = match_re Fmi re_date b;
          commMatch = match_re Fmi re_comment b;
          fs = block_files b
      in case idMatch of
           Some m \<Rightarrow>
             acc @ [\<lparr>changesetId = Number (group_text m 1), author = group1_trimmed userMatch,
                     date = group1_trimmed dateMatch, comment = group1_trimmed commMatch, files = fs\<rparr>]
         | None \<Rightarrow> acc)"

definition parseHistory :: "string \<Rightarrow> TFHistoryItem list" where
  "parseHistory out = foldl history_step [] (history_blocks out)"

section \<open>The queries\<close>

text \<open>\<^verbatim>\<open>ensureWorkspaceConfigured\<close>, \<^verbatim>\<open>runBasic\<close>, \<^verbatim>\<open>shouldAddCollection\<close> and \<^verbatim>\<open>run\<close>\<close>

definition runBasic :: "TFVC \<Rightarrow> tool \<Rightarrow> string list \<Rightarrow> world \<Rightarrow> (error + streams) \<times> world" where
  "runBasic = execWithAuthRetry"

text \<open>\<^verbatim>\<open>this.config?.serverPath || `$/Era/Prototypes/Overpowered`\<close>\<close>

definition serverPath_or_default :: "TFVC \<Rightarrow> string" where
  "serverPath_or_default t =
     (if truthy (cfg_serverPath t) then the_string (cfg_serverPath t) else ''$/Era/Prototypes/Overpowered'')"

definition workfold_map_args :: "TFVC \<Rightarrow> string list" where
  "workfold_map_args t =
     [''workfold'', ''/map'', serverPath_or_default t, cwd t,
      ''/workspace:'' @ the_string (cfg_workspace t), ''/collection:'' @ collectionUrl t]"

definition workspace_new_args :: "TFVC \<Rightarrow> string list" where
  "workspace_new_args t =
     [''workspace'', ''/new'', the_string (cfg_workspace t), ''/collection:'' @ collectionUrl t,
      ''/location:server'']"

text \<open>The body of the outer \<^verbatim>\<open>try\<close> and the body of the inner \<^verbatim>\<open>try\<close> of
  \<^verbatim>\<open>ensureWorkspaceConfigured\<close>.\<close>

definition map_existing :: "TFVC \<Rightarrow> tool \<Rightarrow> world \<Rightarrow> (error + unit) \<times> world" where
  "map_existing t tf w =
     (case runBasic t tf [''workfold''] w of
        (Inl e, w1) \<Rightarrow> (Inl e, w1)
      | (Inr (workfoldOutput, _), w1) \<Rightarrow>
          if includes_str workfoldOutput (cwd t) \<or>
             includes_str workfoldOutput (the_string (cfg_workspace t))
          then (Inr (), w1)
          else
            (case runBasic t tf (workfold_map_args t) w1 of
               (Inl e, w2) \<Rightarrow> (Inl e, w2)
             | (Inr _, w2) \<Rightarrow> (Inr (), w2)))"

definition create_and_map :: "TFVC \<Rightarrow> tool \<Rightarrow> world \<Rightarrow> (error + unit) \<times> world" where
  "create_and_map t tf w =
     (case runBasic t tf (workspace_new_args t) w of
        (Inl e, w1) \<Rightarrow> (Inl e, w1)
      | (Inr _, w1) \<Rightarrow>
          (case runBasic t tf (workfold_map_args t) w1 of
             (Inl e, w2) \<Rightarrow> (Inl e, w2)
           | (Inr _, w2) \<Rightarrow> (Inr (), w2)))"

definition ensureWorkspaceConfigured :: "TFVC \<Rightarrow> tool \<Rightarrow> world \<Rightarrow> (error + unit) \<times> world" where
  "ensureWorkspaceConfigured t tf w =
     (if \<not> truthy (cfg_serverUrl t) \<or> \<not> truthy (cfg_workspace t) then (Inr (), w)
      else
        (case map_existing t tf w of
           (Inr u, w1) \<Rightarrow> (Inr u, w1)
         | (Inl e, w1) \<Rightarrow>
             (case create_and_map t tf w1 of
                (Inr u, w2) \<Rightarrow> (Inr u, w2)
              | (Inl createError, w2) \<Rightarrow>
                  (Inl (Error (''Cannot configure TFVC workspace: '' @ String_of_error createError)), w2))))"

definition shouldAddCollection :: "string option \<Rightarrow> bool" where
  "shouldAddCollection command =
     (case command of
        None \<Rightarrow> False
      | Some c \<Rightarrow>
          c \<in> set [''workspaces'', ''workspace'', ''configure'', ''login'', ''logout'', ''permission'',
                    ''status'', ''history'', ''changeset''])"

text \<open>\<^verbatim>\<open>args[0]\<close>\<close>

fun first_arg :: "string list \<Rightarrow> string option" where
  "first_arg [] = None"
| "first_arg (a # _) = Some a"

definition fullArgs :: "TFVC \<Rightarrow> string list \<Rightarrow> string list" where
  "fullArgs t args =
     (if truthy (cfg_serverUrl t) \<and> shouldAddCollection (first_arg args)
      then args @ [''/collection:'' @ collectionUrl t] else args)"

definition run :: "TFVC \<Rightarrow> tool \<Rightarrow> string list \<Rightarrow> world \<Rightarrow> (error + streams) \<times> world" where
  "run t tf args w =
     (case ensureWorkspaceConfigured t tf w of
        (Inl e, w1) \<Rightarrow> (Inl e, w1)
      | (Inr _, w1) \<Rightarrow> execWithAuthRetry t tf (fullArgs t args) w1)"

subsection \<open>\<^verbatim>\<open>changeset\<close>\<close>

text \<open>\<^verbatim>\<open>this.config?.serverPath || this.cwd || "."\<close>\<close>

definition history_item :: "TFVC \<Rightarrow> string" where
  "history_item t =
     (if truthy (cfg_serverPath t) then the_string (cfg_serverPath t)
      else if cwd t \<noteq> [] then cwd t else ''.'')"

definition changeset_args :: "TFVC \<Rightarrow> number \<Rightarrow> string list" where
  "changeset_args t cid =
     [''history'', history_item t, ''/recursive'', ''/format:detailed'', ''/noprompt'',
      ''/version:C'' @ String_of_number cid @ ''~C'' @ String_of_number cid]"

text \<open>\<^verbatim>\<open>items.find(h => h.changesetId === id) || items[0]\<close>, then \<^verbatim>\<open>match || null\<close>\<close>

definition pick_changeset :: "number \<Rightarrow> TFHistoryItem list \<Rightarrow> TFHistoryItem option" where
  "pick_changeset cid hs =
     (case find (\<lambda>h. strict_equal (changesetId h) cid) hs of
        Some h \<Rightarrow> Some h
      | None \<Rightarrow> (case hs of [] \<Rightarrow> None | h # _ \<Rightarrow> Some h))"

definition changeset :: "TFVC \<Rightarrow> tool \<Rightarrow> number \<Rightarrow> world \<Rightarrow> (error + TFHistoryItem option) \<times> world" where
  "changeset t tf cid w =
     (case run t tf (changeset_args t cid) w of
        (Inl e, w1) \<Rightarrow> (Inl e, w1)
      | (Inr (out, _), w1) \<Rightarrow> (Inr (pick_changeset cid (parseHistory out)), w1))"

subsection \<open>\<^verbatim>\<open>pendingChanges\<close>\<close>

text \<open>\<^verbatim>\<open>it => ({ action: it.action, file: this.toLocalPath(it.file) })\<close>\<close>

definition localized :: "(string \<Rightarrow> string \<Rightarrow> string) \<Rightarrow> TFVC \<Rightarrow> TFPendingItem \<Rightarrow> TFPendingItem" where
  "localized join t it = \<lparr>filePath = toLocalPath join t (filePath it), action = action it\<rparr>"

text \<open>The argument lists of the four status queries.\<close>

definition status_detailed :: "string list" where
  "status_detailed = [''status'', ''/recursive'', ''/format:detailed'']"

definition status_brief :: "string list" where
  "status_brief = [''status'', ''/recursive'', ''/format:brief'']"

definition status_workspace :: "TFVC \<Rightarrow> string list" where
  "status_workspace t =
     [''status'', ''/workspace:'' @ (if truthy (cfg_workspace t) then the_string (cfg_workspace t) else []),
      ''/recursive'', ''/format:brief'']"

definition status_collection :: "string list" where
  "status_collection = [''status'', ''.'', ''/recursive'', ''/format:brief'', ''/noprompt'']"

text \<open>
  \<^verbatim>\<open>pendingChanges\<close>. Each of the first three \<^verbatim>\<open>try\<close> blocks returns when its list is not
  empty and falls through otherwise, also when the query was rejected; the last block
  returns its list, or the empty list when the query was rejected.
\<close>

definition pendingChanges ::
    "(string \<Rightarrow> string \<Rightarrow> string) \<Rightarrow> TFVC \<Rightarrow> tool \<Rightarrow> world \<Rightarrow> (error + TFPendingItem list) \<times> world" where
  "pendingChanges join t tf w =
     (case runBasic t tf status_detailed w of (r1, w1) \<Rightarrow>
        (let detailed = (case r1 of Inr (out, _) \<Rightarrow> map (localized join t) (parsePendingDetailed out)
                                  | Inl e \<Rightarrow> [])
         in if detailed \<noteq> [] then (Inr detailed, w1)
            else
              (case runBasic t tf status_brief w1 of (r2, w2) \<Rightarrow>
                 (let result = (case r2 of Inr (out, _) \<Rightarrow> map (localized join t) (parsePending out)
                                         | Inl e \<Rightarrow> [])
                  in if result \<noteq> [] then (Inr result, w2)
                     else
                       (case runBasic t tf (status_workspace t) w2 of (r3, w3) \<Rightarrow>
                          (let result = (case r3 of Inr (out, _) \<Rightarrow> map (localized join t) (parsePending out)
                                                  | Inl e \<Rightarrow> [])
                           in if result \<noteq> [] then (Inr result, w3)
                              else
                                (case run t tf status_collection w3 of
                                   (Inr (out, _), w4) \<Rightarrow> (Inr (map (localized join t) (parsePending out)), w4)
                                 | (Inl e, w4) \<Rightarrow> (Inr [], w4))))))))"

section \<open>Upper and lower case\<close>

lemma lower_char_id: "\<not> is_upper c \<Longrightarrow> lower_char c = c"
  by (cases c) simp

lemma upper_char_id: "\<not> is_lower c \<Longrightarrow> upper_char c = c"
  by (cases c) simp

lemma is_upper_bit5: "is_upper (Char b0 b1 b2 b3 b4 b5 b6 b7) \<Longrightarrow> \<not> b5"
  by (cases b0; cases b1; cases b2; cases b3; cases b4; cases b5; cases b6; cases b7)
     (simp_all add: is_upper_def code_def)

lemma is_lower_bit5: "is_lower (Char b0 b1 b2 b3 b4 b5 b6 b7) \<Longrightarrow> b5"
  by (cases b0; cases b1; cases b2; cases b3; cases b4; cases b5; cases b6; cases b7)
     (simp_all add: is_lower_def code_def)

lemma code_Char_bit5:
  "code (Char b0 b1 b2 b3 b4 True b6 b7) = code (Char b0 b1 b2 b3 b4 False b6 b7) + 32"
  by (simp add: code_def)

lemma is_lower_lower_char: "is_upper c \<Longrightarrow> is_lower (lower_char c)"
proof (cases c)
  case (Char b0 b1 b2 b3 b4 b5 b6 b7)
  assume u: "is_upper c"
  with Char have b5: "\<not> b5" using is_upper_bit5 by blast
  with u Char show ?thesis
    by (auto simp: is_lower_def is_upper_def code_Char_bit5)
qed

lemma is_upper_upper_char: "is_lower c \<Longrightarrow> is_upper (upper_char c)"
proof (cases c)
  case (Char b0 b1 b2 b3 b4 b5 b6 b7)
  assume u: "is_lower c"
  with Char have b5: "b5" using is_lower_bit5 by blast
  with u Char show ?thesis
    by (auto simp: is_lower_def is_upper_def code_Char_bit5)
qed

lemma lower_upper_char: "is_lower c \<Longrightarrow> lower_char (upper_char c) = c"
proof (cases c)
  case (Char b0 b1 b2 b3 b4 b5 b6 b7)
  assume u: "is_lower c"
  with Char have b5: "b5" using is_lower_bit5 by blast
  from u have "is_upper (upper_char c)" by (rule is_upper_upper_char)
  with u Char b5 show ?thesis by simp
qed

lemma not_upper_lower: "is_lower c \<Longrightarrow> \<not> is_upper c"
  by (auto simp: is_lower_def is_upper_def)

lemma lower_char_idem: "lower_char (lower_char c) = lower_char c"
  by (cases "is_upper c") (simp_all add: lower_char_id is_lower_lower_char not_upper_lower)

text \<open>With or without the flag \<^verbatim>\<open>i\<close>, the characters a one-character class accepts have the
  lower case form of its character.\<close>

lemma member_cs_chr_lower:
  "member_cs f (Cls (\<lambda>y. y = x)) c \<Longrightarrow> lower_char c = lower_char x"
  by (cases "is_lower c")
     (auto simp: lower_char_idem lower_upper_char upper_char_id lower_char_id not_upper_lower
           split: if_splits)

section \<open>Reasoning about matches\<close>

text \<open>
  For proofs, the ways a pattern can match are collected in a list, in the order the
  matcher tries them; the matcher returns what its continuation makes of the first way it
  accepts (\<open>rx_first\<close>).
\<close>

fun reps_list :: "(char \<Rightarrow> bool) \<Rightarrow> nat \<Rightarrow> nat option \<Rightarrow> bool \<Rightarrow> char option \<Rightarrow> string \<Rightarrow> (char option \<times> string) list" where
  "reps_list p lo hi greedy prev [] = (if lo = 0 then [(prev, [])] else [])"
| "reps_list p lo hi greedy prev (c # cs) =
     (if 0 < lo
      then (if p c \<and> hi \<noteq> Some 0
            then reps_list p (lo - 1) (map_option (\<lambda>h. h - 1) hi) greedy (Some c) cs else [])
      else if p c \<and> hi \<noteq> Some 0
      then (if greedy
            then reps_list p 0 (map_option (\<lambda>h. h - 1) hi) greedy (Some c) cs @ [(prev, c # cs)]
            else (prev, c # cs) # reps_list p 0 (map_option (\<lambda>h. h - 1) hi) greedy (Some c) cs)
      else [(prev, c # cs)])"

fun rxs :: "flags \<Rightarrow> re \<Rightarrow> mstate \<Rightarrow> mstate list" where
  "rxs f (Atom cs) (g, prev, rest) =
     (case rest of [] \<Rightarrow> [] | c # r \<Rightarrow> if member_cs f cs c then [(g, Some c, r)] else [])"
| "rxs f (Rep cs lo hi greedy) (g, prev, rest) =
     map (\<lambda>(pv, r). (g, pv, r)) (reps_list (member_cs f cs) lo hi greedy prev rest)"
| "rxs f (Seq a b) st = concat (map (rxs f b) (rxs f a st))"
| "rxs f (Alt a b) st = rxs f a st @ rxs f b st"
| "rxs f (Group n a) (g, prev, rest) =
     map (\<lambda>(g', pv, r). (g'(n \<mapsto> (rest, r)), pv, r)) (rxs f a (g, prev, rest))"
| "rxs f Bol (g, prev, rest) = (if at_bol f prev then [(g, prev, rest)] else [])"
| "rxs f Eol (g, prev, rest) = (if at_eol f rest then [(g, prev, rest)] else [])"
| "rxs f WordB (g, prev, rest) = (if at_wordb prev rest then [(g, prev, rest)] else [])"
| "rxs f Eps st = [st]"

fun first_some :: "('a \<Rightarrow> 'b option) \<Rightarrow> 'a list \<Rightarrow> 'b option" where
  "first_some k [] = None"
| "first_some k (x # xs) = (case k x of Some r \<Rightarrow> Some r | None \<Rightarrow> first_some k xs)"

lemma first_some_single [simp]: "first_some k [x] = k x"
  by (cases "k x") auto

lemma first_some_append:
  "first_some k (xs @ ys) = (case first_some k xs of Some r \<Rightarrow> Some r | None \<Rightarrow> first_some k ys)"
  by (induction xs) (auto split: option.splits)

lemma first_some_concat:
  "first_some k (concat xss) = first_some (\<lambda>xs. first_some k xs) xss"
  by (induction xss) (auto simp: first_some_append split: option.splits)

lemma first_some_map: "first_some k (map h xs) = first_some (\<lambda>x. k (h x)) xs"
  by (induction xs) (auto split: option.splits)

lemma reps_first:
  "reps p lo hi greedy prev s k = first_some (\<lambda>(pv, r). k pv r) (reps_list p lo hi greedy prev s)"
  by (induction s arbitrary: lo hi prev) (auto simp: first_some_append split: option.splits)

lemma rx_first: "rx f r st k = first_some k (rxs f r st)"
proof (induction r arbitrary: st k)
  case (Atom cs)
  then show ?case by (cases st) (auto split: list.splits option.splits)
next
  case (Rep cs lo hi greedy)
  then show ?case
    by (cases st) (simp add: reps_first first_some_map case_prod_unfold)
next
  case (Seq a b)
  then show ?case by (simp add: first_some_concat first_some_map)
next
  case (Alt a b)
  then show ?case by (simp add: first_some_append split: option.splits)
next
  case (Group n a)
  then show ?case by (cases st) (simp add: first_some_map case_prod_unfold)
next
  case Bol
  then show ?case by (cases st) (auto split: option.splits)
next
  case Eol
  then show ?case by (cases st) (auto split: option.splits)
next
  case WordB
  then show ?case by (cases st) (auto split: option.splits)
next
  case Eps
  then show ?case by (auto split: option.splits)
qed

lemma match_at_rxs:
  "match_at f r prev s =
     (case rxs f r (Map.empty, prev, s) of [] \<Rightarrow> None | (g, pv, rest) # _ \<Rightarrow> Some (g, rest))"
  by (simp add: match_at_def rx_first split: list.splits)

lemma match_at_SomeD:
  "match_at f r prev s = Some (g, rest) \<Longrightarrow> \<exists>pv. (g, pv, rest) \<in> set (rxs f r (Map.empty, prev, s))"
  by (auto simp: match_at_rxs split: list.splits)

lemma match_at_None_iff: "match_at f r prev s = None \<longleftrightarrow> rxs f r (Map.empty, prev, s) = []"
  by (auto simp: match_at_rxs split: list.splits)

text \<open>The character before the position reached by passing over \<open>t\<close>.\<close>

definition after :: "char option \<Rightarrow> string \<Rightarrow> char option" where
  "after prev t = (if t = [] then prev else Some (last t))"

lemma after_Nil [simp]: "after prev [] = prev" by (simp add: after_def)
lemma after_Cons [simp]: "after prev (c # t) = after (Some c) t" by (simp add: after_def)
lemma after_append [simp]: "after prev (t @ u) = after (after prev t) u"
  by (induction t arbitrary: prev) auto

lemma in_reps_list:
  "(pv, r) \<in> set (reps_list p lo hi greedy prev s) \<longleftrightarrow>
     (\<exists>t. s = t @ r \<and> (\<forall>c\<in>set t. p c) \<and> lo \<le> length t \<and>
          (case hi of None \<Rightarrow> True | Some h \<Rightarrow> length t \<le> h) \<and> pv = after prev t)"
proof (induction s arbitrary: lo hi prev)
  case Nil
  then show ?case by (auto split: option.splits)
next
  case (Cons c cs)
  let ?hi' = "map_option (\<lambda>h. h - 1) hi"
  have rec: "(pv, r) \<in> set (reps_list p lo' ?hi' greedy (Some c) cs) \<longleftrightarrow>
     (\<exists>t. cs = t @ r \<and> (\<forall>x\<in>set t. p x) \<and> lo' \<le> length t \<and>
          (case ?hi' of None \<Rightarrow> True | Some h \<Rightarrow> length t \<le> h) \<and> pv = after (Some c) t)" for lo'
    by (rule Cons.IH)
  have step: "(\<exists>t. c # cs = t @ r \<and> (\<forall>x\<in>set t. p x) \<and> lo \<le> length t \<and>
          (case hi of None \<Rightarrow> True | Some h \<Rightarrow> length t \<le> h) \<and> pv = after prev t) \<longleftrightarrow>
        (lo = 0 \<and> r = c # cs \<and> pv = prev) \<or>
        (p c \<and> hi \<noteq> Some 0 \<and>
          (\<exists>t. cs = t @ r \<and> (\<forall>x\<in>set t. p x) \<and> lo - 1 \<le> length t \<and>
             (case ?hi' of None \<Rightarrow> True | Some h \<Rightarrow> length t \<le> h) \<and> pv = after (Some c) t))"
    (is "?L \<longleftrightarrow> ?A \<or> ?B")
  proof
    assume ?L
    then obtain t where t: "c # cs = t @ r" "\<forall>x\<in>set t. p x" "lo \<le> length t"
      "(case hi of None \<Rightarrow> True | Some h \<Rightarrow> length t \<le> h)" "pv = after prev t" by blast
    show "?A \<or> ?B"
    proof (cases t)
      case Nil
      with t show ?thesis by simp
    next
      case (Cons x t')
      with t have "?B" by (auto split: option.splits)
      then show ?thesis ..
    qed
  next
    assume "?A \<or> ?B"
    then show ?L
    proof
      assume ?A
      then have "c # cs = [] @ r \<and> (\<forall>x\<in>set []. p x) \<and> lo \<le> length ([]::string) \<and>
          (case hi of None \<Rightarrow> True | Some h \<Rightarrow> length ([]::string) \<le> h) \<and> pv = after prev []"
        by (auto split: option.splits)
      then show ?L by blast
    next
      assume ?B
      then obtain t where t: "p c" "hi \<noteq> Some 0" "cs = t @ r" "\<forall>x\<in>set t. p x" "lo - 1 \<le> length t"
        "(case ?hi' of None \<Rightarrow> True | Some h \<Rightarrow> length t \<le> h)" "pv = after (Some c) t" by blast
      then have "c # cs = (c # t) @ r \<and> (\<forall>x\<in>set (c # t). p x) \<and> lo \<le> length (c # t) \<and>
          (case hi of None \<Rightarrow> True | Some h \<Rightarrow> length (c # t) \<le> h) \<and> pv = after prev (c # t)"
        by (auto split: option.splits)
      then show ?L by blast
    qed
  qed
  show ?case
    unfolding step using rec [of "lo - 1"] rec [of 0]
    by (auto simp del: after_Cons)
qed


lemma rxs_consumes:
  "(g', pv, r') \<in> set (rxs f r (g, prev, s)) \<Longrightarrow> \<exists>t. s = t @ r' \<and> pv = after prev t"
proof (induction r arbitrary: g prev s g' pv r')
  case (Atom cs)
  then show ?case by (auto split: list.splits if_splits intro: exI [of _ "[hd s]"])
next
  case (Rep cs lo hi greedy)
  then show ?case by (auto simp: in_reps_list)
next
  case (Seq a b)
  from Seq.prems obtain g1 p1 r1 where 1: "(g1, p1, r1) \<in> set (rxs f a (g, prev, s))"
    and 2: "(g', pv, r') \<in> set (rxs f b (g1, p1, r1))" by auto
  from Seq.IH(1) [OF 1] obtain t where t: "s = t @ r1" "p1 = after prev t" by blast
  from Seq.IH(2) [OF 2] obtain u where u: "r1 = u @ r'" "pv = after p1 u" by blast
  from t u have "s = (t @ u) @ r' \<and> pv = after prev (t @ u)" by simp
  then show ?case by blast
next
  case (Alt a b)
  then show ?case by auto
next
  case (Group n a)
  then show ?case by auto
next
  case Bol
  then show ?case by (auto split: if_splits)
next
  case Eol
  then show ?case by (auto split: if_splits)
next
  case WordB
  then show ?case by (auto split: if_splits)
next
  case Eps
  then show ?case by auto
qed

lemma match_at_suffix:
  "match_at f r prev s = Some (g, rest) \<Longrightarrow> \<exists>t. s = t @ rest"
  using match_at_SomeD rxs_consumes by blast

lemma match_at_length:
  "match_at f r prev s = Some (g, rest) \<Longrightarrow> length rest \<le> length s"
  using match_at_suffix by fastforce

lemma search_SomeD:
  "search f r prev s = Some (sk, g, from, rest) \<Longrightarrow>
     s = sk @ from \<and> match_at f r (after prev sk) from = Some (g, rest) \<and>
     (\<forall>a b. s = a @ b \<and> length a < length sk \<longrightarrow> match_at f r (after prev a) b = None)"
proof (induction s arbitrary: prev sk)
  case Nil
  then show ?case by (auto split: option.splits)
next
  case (Cons c s)
  show ?case
  proof (cases "match_at f r prev (c # s)")
    case (Some m)
    with Cons.prems show ?thesis by (cases m) auto
  next
    case None
    with Cons.prems obtain sk' where sk: "sk = c # sk'" and rec: "search f r (Some c) s = Some (sk', g, from, rest)"
      by (auto split: option.splits)
    from Cons.IH [OF rec] have ih: "s = sk' @ from" "match_at f r (after (Some c) sk') from = Some (g, rest)"
      "\<And>a b. s = a @ b \<Longrightarrow> length a < length sk' \<Longrightarrow> match_at f r (after (Some c) a) b = None"
      by auto
    have "match_at f r (after prev a) b = None" if "c # s = a @ b" "length a < length sk" for a b
    proof (cases a)
      case Nil
      with that None show ?thesis by simp
    next
      case (Cons x a')
      with that sk ih(3) [of a' b] show ?thesis by auto
    qed
    with sk ih show ?thesis by auto
  qed
qed

lemma search_NoneD:
  "search f r prev s = None \<Longrightarrow> s = a @ b \<Longrightarrow> match_at f r (after prev a) b = None"
proof (induction s arbitrary: prev a)
  case Nil
  then show ?case by (auto split: option.splits)
next
  case (Cons c s)
  from Cons.prems(1) have m: "match_at f r prev (c # s) = None" and rec: "search f r (Some c) s = None"
    by (auto split: option.splits)
  show ?case
  proof (cases a)
    case Nil
    with Cons.prems m show ?thesis by simp
  next
    case (Cons x a')
    with Cons.prems Cons.IH [OF rec, of a'] show ?thesis by auto
  qed
qed

lemma search_NoneI:
  "(\<And>a b. s = a @ b \<Longrightarrow> match_at f r (after prev a) b = None) \<Longrightarrow> search f r prev s = None"
proof (induction s arbitrary: prev)
  case Nil
  then show ?case by (auto split: option.splits)
next
  case (Cons c s)
  have m: "match_at f r prev (c # s) = None" using Cons.prems [of "[]" "c # s"] by simp
  have "search f r (Some c) s = None"
  proof (rule Cons.IH)
    fix a b assume "s = a @ b"
    then show "match_at f r (after (Some c) a) b = None" using Cons.prems [of "c # a" b] by simp
  qed
  with m show ?case by simp
qed

text \<open>A pattern that starts with \<^verbatim>\<open>^\<close> matches at the start of the input only, unless the
  flag \<^verbatim>\<open>m\<close> is set.\<close>

lemma rxs_Bol_Some: "\<not> multiline f \<Longrightarrow> rxs f (Seq Bol r) (g, Some c, s) = []"
  by (simp add: at_bol_def)

lemma match_at_Bol_Some: "\<not> multiline f \<Longrightarrow> match_at f (Seq Bol r) (Some c) s = None"
  by (simp add: match_at_None_iff at_bol_def)

lemma after_Some: "a \<noteq> [] \<Longrightarrow> \<exists>c. after prev a = Some c"
  by (auto simp: after_def)

lemma search_anchored:
  assumes "\<not> multiline f"
  shows "search f (Seq Bol r) None s =
           (case match_at f (Seq Bol r) None s of None \<Rightarrow> None | Some (g, rest) \<Rightarrow> Some ([], g, s, rest))"
proof (cases s)
  case Nil
  then show ?thesis by (auto split: option.splits)
next
  case (Cons c cs)
  have "search f (Seq Bol r) (Some c) cs = None"
  proof (rule search_NoneI)
    fix a b assume "cs = a @ b"
    obtain x where "after (Some c) a = Some x" by (cases "a = []") (auto simp: after_def)
    then show "match_at f (Seq Bol r) (after (Some c) a) b = None"
      using assms by (simp add: match_at_Bol_Some)
  qed
  with Cons show ?thesis by (auto split: option.splits)
qed

lemma in_rxs_Atom:
  "(g', pv, r') \<in> set (rxs f (Atom cs) (g, prev, s)) \<longleftrightarrow>
     (\<exists>c. s = c # r' \<and> member_cs f cs c \<and> g' = g \<and> pv = Some c)"
  by (auto split: list.splits)

lemma in_rxs_Rep:
  "(g', pv, r') \<in> set (rxs f (Rep cs lo hi greedy) (g, prev, s)) \<longleftrightarrow>
     (\<exists>t. s = t @ r' \<and> (\<forall>c\<in>set t. member_cs f cs c) \<and> lo \<le> length t \<and>
          (case hi of None \<Rightarrow> True | Some h \<Rightarrow> length t \<le> h) \<and> pv = after prev t \<and> g' = g)"
  by (auto simp: in_reps_list)

lemma in_rxs_Seq:
  "st'' \<in> set (rxs f (Seq a b) st) \<longleftrightarrow>
     (\<exists>g1 p1 r1. (g1, p1, r1) \<in> set (rxs f a st) \<and> st'' \<in> set (rxs f b (g1, p1, r1)))"
  by auto

lemma in_rxs_Alt:
  "st' \<in> set (rxs f (Alt a b) st) \<longleftrightarrow> st' \<in> set (rxs f a st) \<or> st' \<in> set (rxs f b st)"
  by auto

lemma in_rxs_Group:
  "(g', pv, r') \<in> set (rxs f (Group n a) (g, prev, s)) \<longleftrightarrow>
     (\<exists>g1. (g1, pv, r') \<in> set (rxs f a (g, prev, s)) \<and> g' = g1(n \<mapsto> (s, r')))"
proof
  assume "(g', pv, r') \<in> set (rxs f (Group n a) (g, prev, s))"
  then show "\<exists>g1. (g1, pv, r') \<in> set (rxs f a (g, prev, s)) \<and> g' = g1(n \<mapsto> (s, r'))"
    by auto
next
  assume "\<exists>g1. (g1, pv, r') \<in> set (rxs f a (g, prev, s)) \<and> g' = g1(n \<mapsto> (s, r'))"
  then obtain g1 where g1: "(g1, pv, r') \<in> set (rxs f a (g, prev, s))" "g' = g1(n \<mapsto> (s, r'))"
    by blast
  have "(\<lambda>(g', pv, r). (g'(n \<mapsto> (s, r)), pv, r)) (g1, pv, r') \<in>
        (\<lambda>(g', pv, r). (g'(n \<mapsto> (s, r)), pv, r)) ` set (rxs f a (g, prev, s))"
    using g1(1) by (rule imageI)
  with g1(2) show "(g', pv, r') \<in> set (rxs f (Group n a) (g, prev, s))" by simp
qed

lemma in_rxs_Bol:
  "(g', pv, r') \<in> set (rxs f Bol (g, prev, s)) \<longleftrightarrow> at_bol f prev \<and> g' = g \<and> pv = prev \<and> r' = s"
  by auto

lemma in_rxs_Eol:
  "(g', pv, r') \<in> set (rxs f Eol (g, prev, s)) \<longleftrightarrow> at_eol f s \<and> g' = g \<and> pv = prev \<and> r' = s"
  by auto

lemma in_rxs_WordB:
  "(g', pv, r') \<in> set (rxs f WordB (g, prev, s)) \<longleftrightarrow> at_wordb prev s \<and> g' = g \<and> pv = prev \<and> r' = s"
  by auto

lemma in_rxs_Eps: "st' \<in> set (rxs f Eps st) \<longleftrightarrow> st' = st"
  by auto

lemmas in_rxs = in_rxs_Atom in_rxs_Rep in_rxs_Seq in_rxs_Alt in_rxs_Group in_rxs_Bol in_rxs_Eol
  in_rxs_WordB in_rxs_Eps

lemma search_SomeI:
  assumes "s = a @ b" and "match_at f r (after prev a) b = Some (g, rest)"
    and "\<And>a' b'. s = a' @ b' \<Longrightarrow> length a' < length a \<Longrightarrow> match_at f r (after prev a') b' = None"
  shows "search f r prev s = Some (a, g, b, rest)"
  using assms
proof (induction a arbitrary: s prev)
  case Nil
  then show ?case by (cases s) auto
next
  case (Cons c a)
  from Cons.prems(1) have s: "s = c # (a @ b)" by simp
  have none: "match_at f r prev (c # a @ b) = None"
    using Cons.prems(3) [of "[]" s] s by simp
  have "search f r (Some c) (a @ b) = Some (a, g, b, rest)"
  proof (rule Cons.IH)
    show "a @ b = a @ b" ..
    show "match_at f r (after (Some c) a) b = Some (g, rest)" using Cons.prems(2) by simp
    fix a' b' assume "a @ b = a' @ b'" "length a' < length a"
    then show "match_at f r (after (Some c) a') b' = None"
      using Cons.prems(3) [of "c # a'" b'] s by simp
  qed
  with none s show ?case by simp
qed

section \<open>Properties of the path normalizer\<close>

lemma digit_char_is_digit: "d < 10 \<Longrightarrow> is_digit (digit_char d)"
proof -
  assume "d < 10"
  then have "d \<in> {0, 1, 2, 3, 4, 5, 6, 7, 8, 9}" by auto
  then show ?thesis by (auto simp: digit_char_def is_digit_def code_def)
qed

lemma dec_digits: "dec n \<noteq> [] \<and> (\<forall>c\<in>set (dec n). is_digit c)"
proof (induction n rule: dec.induct)
  case (1 n)
  show ?case
  proof (cases "n < 10")
    case True
    then show ?thesis by (simp add: dec.simps [of n] digit_char_is_digit)
  next
    case False
    with 1 show ?thesis by (simp add: dec.simps [of n] digit_char_is_digit)
  qed
qed

lemma upper_not_digit: "is_upper c \<Longrightarrow> \<not> is_digit c"
  by (auto simp: is_upper_def is_digit_def)

lemma lower_not_digit: "is_lower c \<Longrightarrow> \<not> is_digit c"
  by (auto simp: is_lower_def is_digit_def)

lemma is_digit_lower_char: "is_digit (lower_char c) \<longleftrightarrow> is_digit c"
  using upper_not_digit [of c] lower_not_digit [of "lower_char c"] is_lower_lower_char [of c]
  by (cases "is_upper c") (auto simp: lower_char_id)

lemma is_digit_upper_char: "is_digit (upper_char c) \<longleftrightarrow> is_digit c"
  using lower_not_digit [of c] upper_not_digit [of "upper_char c"] is_upper_upper_char [of c]
  by (cases "is_lower c") (auto simp: upper_char_id)

lemma member_digit: "member_cs f digit c \<longleftrightarrow> is_digit c"
  by (simp add: digit_def is_digit_lower_char is_digit_upper_char)

lemma member_cs_chr_plain:
  assumes "\<not> is_upper c" "\<not> is_lower c"
  shows "member_cs f (Cls (\<lambda>y. y = c)) x \<longleftrightarrow> x = c"
proof -
  have "lower_char x = c \<Longrightarrow> x = c"
    using assms is_lower_lower_char [of x] by (cases "is_upper x") (auto simp: lower_char_id)
  moreover have "upper_char x = c \<Longrightarrow> x = c"
    using assms is_upper_upper_char [of x] by (cases "is_lower x") (auto simp: upper_char_id)
  ultimately show ?thesis by auto
qed

lemma flags_simps [simp]:
  "ignoreCase F0 = False" "multiline F0 = False" "ignoreCase Fi = True" "multiline Fi = False"
  "ignoreCase Fm = False" "multiline Fm = True" "ignoreCase Fmi = True" "multiline Fmi = True"
  by (simp_all add: F0_def Fi_def Fm_def Fmi_def)

lemma in_suffix_matches:
  "(g', pv, r') \<in> set (rxs Fi re_changeset_suffix (g, prev, s)) \<longleftrightarrow>
     (\<exists>c ds. s = CHR '';'' # c # ds \<and> member_cs Fi (Cls (\<lambda>x. x = CHR ''C'')) c \<and> ds \<noteq> [] \<and>
        (\<forall>d\<in>set ds. is_digit d) \<and> r' = [] \<and> g' = g \<and> pv = after prev s)"
proof -
  have semi: "member_cs Fi (Cls (\<lambda>y. y = CHR '';'')) x \<longleftrightarrow> x = CHR '';''" for x
    by (rule member_cs_chr_plain) (simp_all add: is_upper_def is_lower_def code_def)
  show ?thesis
    apply (simp add: re_changeset_suffix_def chr_def plus_def in_rxs member_digit semi at_eol_def
      del: rxs.simps member_cs.simps split: list.splits)
    apply (auto simp del: member_cs.simps simp: Suc_le_eq)
    done
qed


lemma match_at_SomeI:
  "rxs f r (Map.empty, prev, s) \<noteq> [] \<Longrightarrow> \<exists>g rest. match_at f r prev s = Some (g, rest)"
  by (cases "rxs f r (Map.empty, prev, s)") (auto simp: match_at_rxs)

lemma strip_changeset_suffix:
  assumes ds: "ds \<noteq> []" "\<forall>d\<in>set ds. is_digit d"
  shows "strip_changeset (p @ '';C'' @ ds) = p"
proof -
  let ?b = "'';C'' @ ds"
  have "(Map.empty, after (after None p) ?b, []) \<in> set (rxs Fi re_changeset_suffix (Map.empty, after None p, ?b))"
    using ds by (simp add: in_suffix_matches)
  then have "rxs Fi re_changeset_suffix (Map.empty, after None p, ?b) \<noteq> []" by auto
  then obtain g rest where m: "match_at Fi re_changeset_suffix (after None p) ?b = Some (g, rest)"
    using match_at_SomeI by blast
  then obtain pv where "(g, pv, rest) \<in> set (rxs Fi re_changeset_suffix (Map.empty, after None p, ?b))"
    using match_at_SomeD by blast
  then have rest: "rest = []" by (simp add: in_suffix_matches)
  have none: "match_at Fi re_changeset_suffix (after None a') b' = None"
    if split: "p @ ?b = a' @ b'" and short: "length a' < length p" for a' b'
  proof (rule ccontr)
    assume "match_at Fi re_changeset_suffix (after None a') b' \<noteq> None"
    then obtain g' r' where "match_at Fi re_changeset_suffix (after None a') b' = Some (g', r')" by auto
    then obtain pv' where "(g', pv', r') \<in> set (rxs Fi re_changeset_suffix (Map.empty, after None a', b'))"
      using match_at_SomeD by blast
    then obtain c ds' where b': "b' = CHR '';'' # c # ds'" and dig: "\<forall>d\<in>set ds'. is_digit d"
      by (auto simp: in_suffix_matches)
    from split short obtain us where us: "us \<noteq> []" "p = a' @ us" "b' = us @ ?b"
      by (auto simp: append_eq_append_conv2)
    then obtain x xs where "us = x # xs" by (cases us) auto
    with us have "p = a' @ x # xs" "b' = x # xs @ ?b" by auto
    with b' have tail: "xs @ ?b = c # ds'" by simp
    have "\<exists>d\<in>set ds'. \<not> is_digit d"
    proof (cases xs)
      case Nil
      with tail have "CHR ''C'' \<in> set ds'" by auto
      moreover have "\<not> is_digit (CHR ''C'')" by (simp add: is_digit_def code_def)
      ultimately show ?thesis by blast
    next
      case (Cons y ys)
      with tail have "CHR '';'' \<in> set ds'" by auto
      moreover have "\<not> is_digit (CHR '';'')" by (simp add: is_digit_def code_def)
      ultimately show ?thesis by blast
    qed
    with dig show False by blast
  qed
  have "search Fi re_changeset_suffix None (p @ ?b) = Some (p, g, ?b, rest)"
    by (rule search_SomeI [OF refl m none])
  with rest show ?thesis by (simp add: strip_changeset_def replace_first_def)
qed

lemma toLocalPath_suffix:
  assumes "strip_changeset p = p"
  shows "toLocalPath join t (p @ '';C'' @ dec n) = toLocalPath join t p"
proof -
  have "strip_changeset (p @ '';C'' @ dec n) = p"
    using dec_digits [of n] by (intro strip_changeset_suffix) auto
  with assms show ?thesis by (simp add: toLocalPath_def)
qed

lemma test_anchored:
  "\<not> multiline f \<Longrightarrow> test f (Seq Bol r) s \<longleftrightarrow> (\<exists>st. st \<in> set (rxs f (Seq Bol r) (Map.empty, None, s)))"
proof -
  assume "\<not> multiline f"
  then have "test f (Seq Bol r) s \<longleftrightarrow> match_at f (Seq Bol r) None s \<noteq> None"
    by (auto simp: test_def search_anchored split: option.splits)
  also have "\<dots> \<longleftrightarrow> rxs f (Seq Bol r) (Map.empty, None, s) \<noteq> []"
    by (simp add: match_at_None_iff)
  also have "\<dots> \<longleftrightarrow> (\<exists>st. st \<in> set (rxs f (Seq Bol r) (Map.empty, None, s)))"
    by (cases "rxs f (Seq Bol r) (Map.empty, None, s)") auto
  finally show ?thesis .
qed

lemma member_letter: "member_cs F0 letter c \<longleftrightarrow> is_ascii_letter c"
  by (simp add: letter_def)

lemma member_chr_F0: "member_cs F0 (Cls (\<lambda>y. y = x)) c \<longleftrightarrow> c = x"
  by simp

lemma test_local_iff:
  "test F0 re_local s \<longleftrightarrow> (\<exists>a rest. s = a # CHR '':'' # bslash # rest \<and> is_ascii_letter a)"
  by (simp add: re_local_def test_anchored chr_def in_rxs member_letter member_chr_F0 at_bol_def
      del: rxs.simps member_cs.simps) auto

lemma match_at_chr:
  "match_at F0 (chr c) prev s = (case s of [] \<Rightarrow> None | x # r \<Rightarrow> if x = c then Some (Map.empty, r) else None)"
  by (simp add: match_at_def chr_def split: list.splits)

lemma replace_from_chr:
  "replace_from F0 (chr c) [d] prev s 0 = map (\<lambda>x. if x = c then d else x) s"
  by (induction s arbitrary: prev) (simp_all add: match_at_chr)

lemma to_backslashes_map: "to_backslashes s = map (\<lambda>x. if x = CHR ''/'' then bslash else x) s"
  by (simp add: to_backslashes_def replace_all_def replace_from_chr)

lemma test_local_to_backslashes: "test F0 re_local s \<Longrightarrow> test F0 re_local (to_backslashes s)"
proof -
  have "\<not> is_ascii_letter (CHR ''/'')" by (simp add: is_ascii_letter_def code_def)
  then show "test F0 re_local s \<Longrightarrow> test F0 re_local (to_backslashes s)"
    by (auto simp: test_local_iff to_backslashes_map bslash_def)
qed

section \<open>Properties of the executor\<close>

lemma exec_call_world: "snd (exec_call hide tf args w) = w @ [Call hide args]"
  by (simp add: exec_call_def Let_def)

lemma signIn_configured:
  "truthy (cfg_serverUrl t) \<Longrightarrow>
     signIn t tf w = (Inr (), w @ [Call False [''workspaces'', ''/collection:'' @ collectionUrl t]])"
proof -
  assume u: "truthy (cfg_serverUrl t)"
  obtain r w' where x: "execVisibleOnce tf [''workspaces'', ''/collection:'' @ collectionUrl t] w = (r, w')"
    by (cases "execVisibleOnce tf [''workspaces'', ''/collection:'' @ collectionUrl t] w")
  then have "w' = w @ [Call False [''workspaces'', ''/collection:'' @ collectionUrl t]]"
    using exec_call_world [of False tf "[''workspaces'', ''/collection:'' @ collectionUrl t]" w]
    by (simp add: execVisibleOnce_def)
  with u x show ?thesis by (simp add: signIn_def)
qed


lemma execOnce_world: "snd (execOnce tf args w) = w @ [Call True args]"
  by (simp add: execOnce_def exec_call_world)

text \<open>Two configurations and a tool for concrete runs: the tool rejects the first run
  of a history with the message of an authentication failure and accepts every later
  one.\<close>

definition tool_auth_then_ok :: tool where
  "tool_auth_then_ok h =
     (if length h = 1
      then \<lparr>failure = Some ''Error: Command failed: TF.exe status'', stdout = [],
            stderr = ''TF30063: You are not authorized to access the server.''\<rparr>
      else \<lparr>failure = None, stdout = ''ok'', stderr = []\<rparr>)"

definition tfvc_no_config :: TFVC where
  "tfvc_no_config = \<lparr>tfPath = ''TF.exe'', cwd = ''C:'' @ CHR 0x5C # ''ws'', config = None, collectionUrl = []\<rparr>"

definition config_of_url :: "string \<Rightarrow> VstfsConfig" where
  "config_of_url u =
     \<lparr>serverUrl = u, project = ''Proj'', workspace = ''WS'', cfg_tfPath = ''TF.exe'',
      root = ''.'', serverPath = ''$/Proj''\<rparr>"

definition tfvc_of_url :: "string \<Rightarrow> TFVC" where
  "tfvc_of_url u =
     \<lparr>tfPath = ''TF.exe'', cwd = ''C:'' @ CHR 0x5C # ''ws'', config = Some (config_of_url u),
      collectionUrl = u\<rparr>"

lemmas exec_eval_defs =
  execWithAuthRetry_def execOnce_def execVisibleOnce_def exec_call_def signIn_def
  caught_message_def String_of_error_def isAuthError_def toLowerCase_def is_upper_def code_def
  cfg_serverUrl_def tool_auth_then_ok_def tfvc_no_config_def tfvc_of_url_def config_of_url_def

text \<open>
  C3 (as amended). When the first attempt of a command fails with a message that
  \<open>isAuthError\<close> recognises (the message of a failed run is its error stream, or its
  output stream when the error stream is empty, or the text of the error when both are)
  and a server URL is configured, the executor makes exactly three runs: the command, one
  visible \<^verbatim>\<open>workspaces /collection:...\<close> run (the sign-in step), and the command once more;
  what it returns, a success or a failure, is the outcome of that single retry.
\<close>

theorem execWithAuthRetry_retries_once:
  assumes first: "execOnce tf args w = (Inl e, w1)"
    and auth: "isAuthError (caught_message e)"
    and url: "truthy (cfg_serverUrl t)"
  shows "execWithAuthRetry t tf args w =
           execOnce tf args (w @ [Call True args, Call False [''workspaces'', ''/collection:'' @ collectionUrl t]])
         \<and> snd (execWithAuthRetry t tf args w) =
           w @ [Call True args, Call False [''workspaces'', ''/collection:'' @ collectionUrl t], Call True args]"
proof -
  let ?signin = "Call False [''workspaces'', ''/collection:'' @ collectionUrl t]"
  have w1: "w1 = w @ [Call True args]"
    using first execOnce_world [of tf args w] by simp
  have "signIn t tf w1 = (Inr (), w1 @ [?signin])"
    using url by (rule signIn_configured)
  then have run: "execWithAuthRetry t tf args w = execOnce tf args (w1 @ [?signin])"
    using first auth url by (simp add: execWithAuthRetry_def)
  then have "snd (execWithAuthRetry t tf args w) = (w1 @ [?signin]) @ [Call True args]"
    by (simp add: execOnce_world)
  with run w1 show ?thesis by simp
qed

theorem execWithAuthRetry_retries_once_witness:
  "execWithAuthRetry (tfvc_of_url ''http://tfs:8080/tfs'') tool_auth_then_ok [''status''] [] =
     (Inr (''ok'', []),
      [Call True [''status''], Call False [''workspaces'', ''/collection:http://tfs:8080/tfs''],
       Call True [''status'']])"
proof -
  let ?t = "tfvc_of_url ''http://tfs:8080/tfs''"
  let ?e = "Error ''TF30063: You are not authorized to access the server.''"
  have first: "execOnce tool_auth_then_ok [''status''] [] = (Inl ?e, [Call True [''status'']])"
    by (simp add: exec_eval_defs)
  have auth: "isAuthError (caught_message ?e)"
    by (simp add: exec_eval_defs)
  have url: "truthy (cfg_serverUrl ?t)"
    by (simp add: exec_eval_defs)
  have "execOnce tool_auth_then_ok [''status'']
          [Call True [''status''], Call False [''workspaces'', ''/collection:http://tfs:8080/tfs'']] =
        (Inr (''ok'', []),
         [Call True [''status''], Call False [''workspaces'', ''/collection:http://tfs:8080/tfs''],
          Call True [''status'']])"
    by (simp add: exec_eval_defs)
  moreover have "collectionUrl ?t = ''http://tfs:8080/tfs''"
    by (simp add: tfvc_of_url_def)
  ultimately show ?thesis
    using execWithAuthRetry_retries_once [OF first auth url] by simp
qed

text \<open>
  A tool whose first run fails with the authentication message on its output stream and a
  warning on its error stream, and which accepts every later run.
\<close>

definition tool_auth_on_stdout :: tool where
  "tool_auth_on_stdout h =
     (if length h = 1
      then \<lparr>failure = Some ''Error: Command failed: TF.exe status'',
            stdout = ''TF30063: You are not authorized to access the server.'',
            stderr = ''Warning: the workspace cache is out of date.''\<rparr>
      else \<lparr>failure = None, stdout = ''ok'', stderr = []\<rparr>)"

text \<open>
  C3 as stated fails, in two ways. With no configuration (or an empty server URL) a first
  attempt that fails with an authentication message is not followed by a sign-in step or
  a retry, even where the retry would have succeeded. And with a server URL configured,
  a first attempt whose output stream carries the signature is not retried when its
  error stream is not empty and does not carry one: the message examined is
  \<^verbatim>\<open>stderr || stdout || String(err)\<close>, the first of the three that is not empty, not the
  combined output.
\<close>

theorem execWithAuthRetry_retry_counterexample:
  "isAuthError (caught_message (Error ''TF30063: You are not authorized to access the server.''))
   \<and> execOnce tool_auth_then_ok [''status''] [] =
       (Inl (Error ''TF30063: You are not authorized to access the server.''), [Call True [''status'']])
   \<and> execOnce tool_auth_then_ok [''status''] [Call True [''status'']] =
       (Inr (''ok'', []), [Call True [''status''], Call True [''status'']])
   \<and> execWithAuthRetry tfvc_no_config tool_auth_then_ok [''status''] [] =
       (Inl (Error ''TF30063: You are not authorized to access the server.''), [Call True [''status'']])
   \<and> truthy (cfg_serverUrl (tfvc_of_url ''http://tfs:8080/tfs''))
   \<and> isAuthError (stdout (tool_auth_on_stdout [Call True [''status'']]))
   \<and> execOnce tool_auth_on_stdout [''status''] [Call True [''status'']] =
       (Inr (''ok'', []), [Call True [''status''], Call True [''status'']])
   \<and> execWithAuthRetry (tfvc_of_url ''http://tfs:8080/tfs'') tool_auth_on_stdout [''status''] [] =
       (Inl (Error ''Warning: the workspace cache is out of date.''), [Call True [''status'']])"
  by (simp add: exec_eval_defs tool_auth_on_stdout_def)

text \<open>
  C10. When the first attempt fails with a message that \<open>isAuthError\<close> recognises and
  the server URL is absent (no configuration) or empty, the executor makes no further
  run, neither the sign-in step nor a retry, and rejects with the error of the first
  attempt, unchanged.
\<close>

theorem execWithAuthRetry_without_serverUrl:
  assumes first: "execOnce tf args w = (Inl e, w1)"
    and auth: "isAuthError (caught_message e)"
    and nourl: "\<not> truthy (cfg_serverUrl t)"
  shows "execWithAuthRetry t tf args w = (Inl e, w @ [Call True args])"
proof -
  have "w1 = w @ [Call True args]"
    using first execOnce_world [of tf args w] by simp
  with first nourl show ?thesis
    by (simp add: execWithAuthRetry_def)
qed

theorem execWithAuthRetry_without_serverUrl_witness:
  "execWithAuthRetry (tfvc_of_url []) tool_auth_then_ok [''history'', ''.''] [] =
     (Inl (Error ''TF30063: You are not authorized to access the server.''),
      [Call True [''history'', ''.'']])"
proof -
  let ?e = "Error ''TF30063: You are not authorized to access the server.''"
  have first: "execOnce tool_auth_then_ok [''history'', ''.''] [] = (Inl ?e, [Call True [''history'', ''.'']])"
    by (simp add: exec_eval_defs)
  have auth: "isAuthError (caught_message ?e)"
    by (simp add: exec_eval_defs)
  have nourl: "\<not> truthy (cfg_serverUrl (tfvc_of_url []))"
    by (simp add: exec_eval_defs)
  show ?thesis
    using execWithAuthRetry_without_serverUrl [OF first auth nourl] by simp
qed

section \<open>The path normalizer and the changeset suffix\<close>

lemma win_join_plain_local: "test F0 re_local a \<Longrightarrow> test F0 re_local (win_join_plain a b)"
  by (auto simp: test_local_iff win_join_plain_def)

text \<open>
  C6. For every path \<open>p\<close> without a changeset suffix (one that \<open>strip_changeset\<close> leaves as
  it is) and every changeset id \<open>n\<close>, a whole number from 0 to below \<open>10\<^sup>2\<^sup>1\<close>, which
  \<^verbatim>\<open>p + ";C" + n\<close> prints as its decimal digits, the path with \<^verbatim>\<open>;C<n>\<close> appended is normalized
  to the same local path as \<open>p\<close>.
\<close>

theorem toLocalPath_changeset_suffix:
  assumes "strip_changeset p = p" and "0 \<le> n" and "n < 10 ^ 21"
  shows "toLocalPath join t (p @ '';C'' @ String_of_number (Whole n)) = toLocalPath join t p"
proof -
  have "String_of_number (Whole n) = dec n"
    using assms(2,3) by (simp add: String_of_number_def unsigned_def)
  moreover have "strip_changeset (p @ '';C'' @ dec n) = p"
    using dec_digits [of n] by (intro strip_changeset_suffix) auto
  ultimately show ?thesis using assms(1) by (simp add: toLocalPath_def)
qed

theorem toLocalPath_changeset_suffix_witness:
  "toLocalPath win_join_plain tfvc_no_config (''$/Proj/File.cs'' @ '';C'' @ String_of_number (Whole 42)) =
     toLocalPath win_join_plain tfvc_no_config ''$/Proj/File.cs''
   \<and> ''$/Proj/File.cs'' @ '';C'' @ String_of_number (Whole 42) = ''$/Proj/File.cs;C42''
   \<and> toLocalPath win_join_plain tfvc_no_config ''$/Proj/File.cs'' =
     ''C:'' @ bslash # ''ws'' @ bslash # ''Proj'' @ bslash # ''File.cs''"
proof -
  have clean: "strip_changeset ''$/Proj/File.cs'' = ''$/Proj/File.cs''"
    by code_simp
  have printed: "''$/Proj/File.cs'' @ '';C'' @ String_of_number (Whole 42) = ''$/Proj/File.cs;C42''"
    by code_simp
  have "toLocalPath win_join_plain tfvc_no_config ''$/Proj/File.cs'' =
          ''C:'' @ bslash # ''ws'' @ bslash # ''Proj'' @ bslash # ''File.cs''"
    by code_simp
  with printed toLocalPath_changeset_suffix [OF clean, of 42 win_join_plain tfvc_no_config]
  show ?thesis by simp
qed

text \<open>
  C9 (as amended). Assume the working directory is an absolute drive-letter path and
  \<^verbatim>\<open>path.join\<close> of such a directory is such a path again. Then \<open>toLocalPath\<close> leaves every
  one of its results unchanged that does not end in a changeset suffix.
\<close>

theorem toLocalPath_idempotent:
  assumes cwd: "test F0 re_local (cwd t)"
    and join: "\<And>a b. test F0 re_local a \<Longrightarrow> test F0 re_local (join a b)"
    and clean: "strip_changeset (toLocalPath join t p) = toLocalPath join t p"
  shows "toLocalPath join t (toLocalPath join t p) = toLocalPath join t p"
proof -
  have "test F0 re_local (toLocalPath join t p)"
    using cwd join by (auto simp: toLocalPath_def Let_def intro!: test_local_to_backslashes)
  with clean show ?thesis by (simp add: toLocalPath_def [of join t "toLocalPath join t p"])
qed

theorem toLocalPath_idempotent_witness:
  "toLocalPath win_join_plain tfvc_no_config (toLocalPath win_join_plain tfvc_no_config ''$/Proj/File.cs;C42'') =
     toLocalPath win_join_plain tfvc_no_config ''$/Proj/File.cs;C42''
   \<and> toLocalPath win_join_plain tfvc_no_config ''$/Proj/File.cs;C42'' =
     ''C:'' @ bslash # ''ws'' @ bslash # ''Proj'' @ bslash # ''File.cs''"
proof -
  have out: "toLocalPath win_join_plain tfvc_no_config ''$/Proj/File.cs;C42'' =
               ''C:'' @ bslash # ''ws'' @ bslash # ''Proj'' @ bslash # ''File.cs''"
    by code_simp
  have cwd: "test F0 re_local (cwd tfvc_no_config)"
    by code_simp
  have "strip_changeset (''C:'' @ bslash # ''ws'' @ bslash # ''Proj'' @ bslash # ''File.cs'') =
          ''C:'' @ bslash # ''ws'' @ bslash # ''Proj'' @ bslash # ''File.cs''"
    by code_simp
  with out have clean: "strip_changeset (toLocalPath win_join_plain tfvc_no_config ''$/Proj/File.cs;C42'') =
      toLocalPath win_join_plain tfvc_no_config ''$/Proj/File.cs;C42''"
    by simp
  from toLocalPath_idempotent [of tfvc_no_config win_join_plain, OF cwd win_join_plain_local clean] out
  show ?thesis by simp
qed

text \<open>
  C9 as stated fails: the branch for a path that is already local returns the path without
  its last changeset suffix, so a result can itself end in a suffix, which the second
  application strips.
\<close>

theorem toLocalPath_idempotent_counterexample:
  "test F0 re_local (cwd tfvc_no_config)
   \<and> toLocalPath win_join_plain tfvc_no_config (''C:'' @ bslash # ''ws'' @ bslash # ''a.cs;C1;C2'') =
     ''C:'' @ bslash # ''ws'' @ bslash # ''a.cs;C1''
   \<and> toLocalPath win_join_plain tfvc_no_config
       (toLocalPath win_join_plain tfvc_no_config (''C:'' @ bslash # ''ws'' @ bslash # ''a.cs;C1;C2'')) =
     ''C:'' @ bslash # ''ws'' @ bslash # ''a.cs''
   \<and> toLocalPath win_join_plain tfvc_no_config
       (toLocalPath win_join_plain tfvc_no_config (''C:'' @ bslash # ''ws'' @ bslash # ''a.cs;C1;C2'')) \<noteq>
     toLocalPath win_join_plain tfvc_no_config (''C:'' @ bslash # ''ws'' @ bslash # ''a.cs;C1;C2'')"
  by code_simp

section \<open>The changeset lookup\<close>

lemma find_SomeD: "find P xs = Some x \<Longrightarrow> x \<in> set xs \<and> P x"
  by (induction xs) (auto split: if_splits)

lemma find_NoneD: "find P xs = None \<Longrightarrow> x \<in> set xs \<Longrightarrow> \<not> P x"
  by (induction xs) (auto split: if_splits)

lemma pick_changeset_cases:
  "(pick_changeset cid hs = None \<longleftrightarrow> hs = []) \<and>
   (\<forall>h. pick_changeset cid hs = Some h \<longrightarrow>
      h \<in> set hs \<and>
      (\<not> strict_equal (changesetId h) cid \<longrightarrow>
         h = hd hs \<and> (\<forall>h'\<in>set hs. \<not> strict_equal (changesetId h') cid)))"
proof (cases "find (\<lambda>h. strict_equal (changesetId h) cid) hs")
  case None
  then have no: "\<forall>h'\<in>set hs. \<not> strict_equal (changesetId h') cid"
    using find_NoneD [of "\<lambda>h. strict_equal (changesetId h) cid" hs] by blast
  show ?thesis
  proof (cases hs)
    case Nil
    then show ?thesis by (simp add: pick_changeset_def)
  next
    case (Cons h hs')
    with None have "pick_changeset cid hs = Some h" by (simp add: pick_changeset_def)
    with Cons no show ?thesis by simp
  qed
next
  case (Some h)
  then have h: "h \<in> set hs" "strict_equal (changesetId h) cid"
    using find_SomeD [of "\<lambda>h. strict_equal (changesetId h) cid" hs h] by auto
  from Some have "pick_changeset cid hs = Some h" by (simp add: pick_changeset_def)
  with h show ?thesis by auto
qed

text \<open>A tool that answers every run with the history of changeset 7, and a tool that
  rejects every run, as the server does a changeset it does not have.\<close>

definition history_output_7 :: string where
  "history_output_7 =
     ''Changeset: 7'' @ [CR, LF] @ ''User: alice'' @ [CR, LF] @ ''Items:'' @ [CR, LF] @
     ''  edit $/Proj/A.cs'' @ [CR, LF]"

definition tool_history_7 :: tool where
  "tool_history_7 h = \<lparr>failure = None, stdout = history_output_7, stderr = []\<rparr>"

definition tool_no_changeset :: tool where
  "tool_no_changeset h =
     \<lparr>failure = Some ''Error: Command failed: TF.exe history'', stdout = [],
      stderr = ''The changeset does not exist.''\<rparr>"

lemma parseHistory_output_7:
  "parseHistory history_output_7 =
     [\<lparr>changesetId = Whole 7, author = ''alice'', date = [], comment = [],
       files = [\<lparr>path = ''$/Proj/A.cs'', change = ''edit''\<rparr>]\<rparr>]"
  by code_simp

lemma run_tool_history_7:
  "run tfvc_no_config tool_history_7 (changeset_args tfvc_no_config cid) [] =
     (Inr (history_output_7, []), [Call True (changeset_args tfvc_no_config cid)])"
  by (simp add: run_def ensureWorkspaceConfigured_def fullArgs_def cfg_serverUrl_def tfvc_no_config_def
      execWithAuthRetry_def execOnce_def exec_call_def tool_history_7_def)

lemma run_tool_no_changeset:
  "run tfvc_no_config tool_no_changeset (changeset_args tfvc_no_config cid) [] =
     (Inl (Error ''The changeset does not exist.''), [Call True (changeset_args tfvc_no_config cid)])"
  by (simp add: run_def ensureWorkspaceConfigured_def fullArgs_def cfg_serverUrl_def tfvc_no_config_def
      execWithAuthRetry_def execOnce_def exec_call_def tool_no_changeset_def caught_message_def
      isAuthError_def toLowerCase_def)

text \<open>
  C2 (as amended). The lookup runs one history command. When that command fails, the
  lookup fails with the same error (it raises). When it succeeds, the lookup returns:
  the absent result exactly when the output yields no entry, and otherwise an entry
  parsed from the output, which has the requested id whenever some parsed entry has it
  and is the first parsed entry when none has.
\<close>

theorem changeset_lookup:
  "(\<forall>e w'. run t tf (changeset_args t cid) w = (Inl e, w') \<longrightarrow>
      changeset t tf cid w = (Inl e, w'))
   \<and> (\<forall>out err w'. run t tf (changeset_args t cid) w = (Inr (out, err), w') \<longrightarrow>
        (\<exists>r. changeset t tf cid w = (Inr r, w') \<and>
           (r = None \<longleftrightarrow> parseHistory out = []) \<and>
           (\<forall>h. r = Some h \<longrightarrow>
              h \<in> set (parseHistory out) \<and>
              (\<not> strict_equal (changesetId h) cid \<longrightarrow>
                 h = hd (parseHistory out) \<and>
                 (\<forall>h'\<in>set (parseHistory out). \<not> strict_equal (changesetId h') cid)))))"
proof (intro conjI allI impI)
  fix e w'
  assume "run t tf (changeset_args t cid) w = (Inl e, w')"
  then show "changeset t tf cid w = (Inl e, w')" by (simp add: changeset_def)
next
  fix out err w'
  assume "run t tf (changeset_args t cid) w = (Inr (out, err), w')"
  then have "changeset t tf cid w = (Inr (pick_changeset cid (parseHistory out)), w')"
    by (simp add: changeset_def)
  moreover note pick_changeset_cases [of cid "parseHistory out"]
  ultimately show "\<exists>r. changeset t tf cid w = (Inr r, w') \<and>
           (r = None \<longleftrightarrow> parseHistory out = []) \<and>
           (\<forall>h. r = Some h \<longrightarrow>
              h \<in> set (parseHistory out) \<and>
              (\<not> strict_equal (changesetId h) cid \<longrightarrow>
                 h = hd (parseHistory out) \<and>
                 (\<forall>h'\<in>set (parseHistory out). \<not> strict_equal (changesetId h') cid)))"
    by simp
qed

theorem changeset_lookup_witness:
  "changeset tfvc_no_config tool_history_7 (Whole 7) [] =
     (Inr (Some \<lparr>changesetId = Whole 7, author = ''alice'', date = [], comment = [],
                 files = [\<lparr>path = ''$/Proj/A.cs'', change = ''edit''\<rparr>]\<rparr>),
      [Call True (changeset_args tfvc_no_config (Whole 7))])
   \<and> changeset tfvc_no_config tool_no_changeset (Whole 7) [] =
     (Inl (Error ''The changeset does not exist.''),
      [Call True (changeset_args tfvc_no_config (Whole 7))])"
proof -
  from changeset_lookup [of tfvc_no_config tool_history_7 "Whole 7" "[]"]
    run_tool_history_7 [of "Whole 7"]
  obtain r where r: "changeset tfvc_no_config tool_history_7 (Whole 7) [] =
        (Inr r, [Call True (changeset_args tfvc_no_config (Whole 7))])"
      "r = None \<longleftrightarrow> parseHistory history_output_7 = []"
      "\<And>h. r = Some h \<Longrightarrow> h \<in> set (parseHistory history_output_7)"
    by blast
  from r(2) obtain h where h: "r = Some h"
    by (cases r) (simp_all add: parseHistory_output_7)
  with r(3) [of h] have "h = \<lparr>changesetId = Whole 7, author = ''alice'', date = [], comment = [],
      files = [\<lparr>path = ''$/Proj/A.cs'', change = ''edit''\<rparr>]\<rparr>"
    by (simp add: parseHistory_output_7)
  with r(1) h have found: "changeset tfvc_no_config tool_history_7 (Whole 7) [] =
     (Inr (Some \<lparr>changesetId = Whole 7, author = ''alice'', date = [], comment = [],
                 files = [\<lparr>path = ''$/Proj/A.cs'', change = ''edit''\<rparr>]\<rparr>),
      [Call True (changeset_args tfvc_no_config (Whole 7))])"
    by simp
  from changeset_lookup [of tfvc_no_config tool_no_changeset "Whole 7" "[]"]
    run_tool_no_changeset [of "Whole 7"]
  have "changeset tfvc_no_config tool_no_changeset (Whole 7) [] =
     (Inl (Error ''The changeset does not exist.''),
      [Call True (changeset_args tfvc_no_config (Whole 7))])"
    by blast
  with found show ?thesis by simp
qed

text \<open>
  C2 as stated fails, in two ways. Asked for changeset 5, with an output that holds
  changeset 7 only, the lookup returns the entry of changeset 7. And when the history
  command is rejected, as for a changeset the server does not have, the lookup neither
  returns an entry nor the absent result: it raises the error of the command.
\<close>

theorem changeset_lookup_counterexample:
  "changeset tfvc_no_config tool_history_7 (Whole 5) [] =
     (Inr (Some \<lparr>changesetId = Whole 7, author = ''alice'', date = [], comment = [],
                 files = [\<lparr>path = ''$/Proj/A.cs'', change = ''edit''\<rparr>]\<rparr>),
      [Call True (changeset_args tfvc_no_config (Whole 5))])
   \<and> \<not> strict_equal
        (changesetId \<lparr>changesetId = Whole 7, author = ''alice'', date = [], comment = [],
                      files = [\<lparr>path = ''$/Proj/A.cs'', change = ''edit''\<rparr>]\<rparr>) (Whole 5)
   \<and> changeset tfvc_no_config tool_no_changeset (Whole 5) [] =
     (Inl (Error ''The changeset does not exist.''),
      [Call True (changeset_args tfvc_no_config (Whole 5))])"
  by (simp add: changeset_def run_tool_history_7 run_tool_no_changeset parseHistory_output_7
      pick_changeset_def)

section \<open>The pending-changes query\<close>

text \<open>
  The policy in the words of the specification: the queries are tried in order, each one
  attempted in full (in the world the one before it left) before the next; the first
  result that is not empty is returned, and the empty list when no query gives one, also
  when every query fails.
\<close>

fun first_nonempty :: "(world \<Rightarrow> (error + 'a list) \<times> world) list \<Rightarrow> world \<Rightarrow> 'a list \<times> world" where
  "first_nonempty [] w = ([], w)"
| "first_nonempty (q # qs) w =
     (case q w of
        (Inr r, w') \<Rightarrow> if r \<noteq> [] then (r, w') else first_nonempty qs w'
      | (Inl e, w') \<Rightarrow> first_nonempty qs w')"

text \<open>One status query: a run of the tool, its output parsed and the paths made local.\<close>

definition status_query ::
    "(string \<Rightarrow> TFPendingItem list) \<Rightarrow> (string list \<Rightarrow> world \<Rightarrow> (error + streams) \<times> world) \<Rightarrow>
     (string \<Rightarrow> string \<Rightarrow> string) \<Rightarrow> TFVC \<Rightarrow> string list \<Rightarrow> world \<Rightarrow>
     (error + TFPendingItem list) \<times> world" where
  "status_query parse runner join t args w =
     (case runner args w of
        (Inl e, w') \<Rightarrow> (Inl e, w')
      | (Inr (out, _), w') \<Rightarrow> (Inr (map (localized join t) (parse out)), w'))"

text \<open>The four queries: the detailed format, the brief format, the brief format with the
  workspace, and the brief format through \<open>run\<close>, which adds the collection.\<close>

definition status_queries ::
    "(string \<Rightarrow> string \<Rightarrow> string) \<Rightarrow> TFVC \<Rightarrow> tool \<Rightarrow>
     (world \<Rightarrow> (error + TFPendingItem list) \<times> world) list" where
  "status_queries join t tf =
     [status_query parsePendingDetailed (runBasic t tf) join t status_detailed,
      status_query parsePending (runBasic t tf) join t status_brief,
      status_query parsePending (runBasic t tf) join t (status_workspace t),
      status_query parsePending (run t tf) join t status_collection]"

text \<open>The argument lists of the \<^verbatim>\<open>status\<close> runs of a history, in the order they were made.\<close>

definition status_runs :: "world \<Rightarrow> string list list" where
  "status_runs w = filter (\<lambda>a. first_arg a = Some ''status'') (map argv w)"

text \<open>A tool for concrete runs: it rejects the detailed query, answers a \<^verbatim>\<open>status\<close> run
  with \<^verbatim>\<open>/noprompt\<close> among its arguments with one row, and reports no pending changes to
  every other run.\<close>

definition tool_status :: tool where
  "tool_status h =
     (if argv (last h) = status_detailed
      then \<lparr>failure = Some ''Error: Command failed'', stdout = [], stderr = ''Unrecognized option''\<rparr>
      else if ''/noprompt'' \<in> set (argv (last h))
      then \<lparr>failure = None,
            stdout = ''Foo.cs     edit     C:'' @ bslash # ''ws'' @ bslash # ''Foo.cs'' @ [CR, LF],
            stderr = []\<rparr>
      else \<lparr>failure = None, stdout = ''There are no pending changes.'' @ [CR, LF], stderr = []\<rparr>)"

lemma pendingChanges_policy:
  "pendingChanges join t tf w =
     (case first_nonempty (status_queries join t tf) w of (r, w') \<Rightarrow> (Inr r, w'))"
  by (simp add: pendingChanges_def status_queries_def status_query_def Let_def
      split: prod.splits sum.splits)


lemma status_runs_append [simp]: "status_runs (w @ x) = status_runs w @ status_runs x"
  by (simp add: status_runs_def)

lemma execWithAuthRetry_world:
  "snd (execWithAuthRetry t tf args w) = w @ [Call True args] \<or>
   snd (execWithAuthRetry t tf args w) =
     w @ [Call True args, Call False [''workspaces'', ''/collection:'' @ collectionUrl t], Call True args]"
proof (cases "execOnce tf args w")
  case (Pair r w1)
  then have w1: "w1 = w @ [Call True args]" using execOnce_world [of tf args w] by simp
  show ?thesis
  proof (cases r)
    case (Inr out)
    with Pair w1 show ?thesis by (simp add: execWithAuthRetry_def)
  next
    case (Inl e)
    show ?thesis
    proof (cases "isAuthError (caught_message e) \<and> truthy (cfg_serverUrl t)")
      case True
      with Pair Inl have "execWithAuthRetry t tf args w =
          execOnce tf args (w1 @ [Call False [''workspaces'', ''/collection:'' @ collectionUrl t]])"
        by (simp add: execWithAuthRetry_def signIn_configured)
      then show ?thesis using w1 by (simp add: execOnce_world)
    next
      case False
      with Pair Inl w1 show ?thesis by (auto simp: execWithAuthRetry_def)
    qed
  qed
qed

lemma execWithAuthRetry_status:
  assumes "execWithAuthRetry t tf args w = (r, w')" and "first_arg args = Some ''status''"
  shows "status_runs w' = status_runs w @ [args] \<or> status_runs w' = status_runs w @ [args, args]"
  using execWithAuthRetry_world [of t tf args w] assms by (auto simp: status_runs_def)

lemma execWithAuthRetry_other:
  assumes "execWithAuthRetry t tf args w = (r, w')" and "first_arg args \<noteq> Some ''status''"
  shows "status_runs w' = status_runs w"
  using execWithAuthRetry_world [of t tf args w] assms by (auto simp: status_runs_def)

lemma map_existing_status:
  assumes "map_existing t tf w = (r, w')"
  shows "status_runs w' = status_runs w"
proof -
  have 1: "first_arg [''workfold''] \<noteq> Some ''status''" by simp
  have 2: "first_arg (workfold_map_args t) \<noteq> Some ''status''" by (simp add: workfold_map_args_def)
  show ?thesis
    using assms execWithAuthRetry_other [OF _ 1] execWithAuthRetry_other [OF _ 2]
    by (auto simp: map_existing_def runBasic_def split: prod.splits sum.splits if_splits)
qed


lemma create_and_map_status:
  assumes "create_and_map t tf w = (r, w')"
  shows "status_runs w' = status_runs w"
proof -
  have 1: "first_arg (workspace_new_args t) \<noteq> Some ''status''" by (simp add: workspace_new_args_def)
  have 2: "first_arg (workfold_map_args t) \<noteq> Some ''status''" by (simp add: workfold_map_args_def)
  show ?thesis
    using assms execWithAuthRetry_other [OF _ 1] execWithAuthRetry_other [OF _ 2]
    by (auto simp: create_and_map_def runBasic_def split: prod.splits sum.splits if_splits)
qed

lemma ensureWorkspaceConfigured_status:
  assumes "ensureWorkspaceConfigured t tf w = (r, w')"
  shows "status_runs w' = status_runs w"
  using assms map_existing_status create_and_map_status
  by (auto simp: ensureWorkspaceConfigured_def split: prod.splits sum.splits if_splits)

lemma fullArgs_first: "first_arg (fullArgs t args) = first_arg args"
  by (cases args) (simp_all add: fullArgs_def shouldAddCollection_def)

lemma run_status:
  assumes "run t tf args w = (r, w')" and "first_arg args = Some ''status''"
  shows "status_runs w' = status_runs w \<or> status_runs w' = status_runs w @ [fullArgs t args] \<or>
         status_runs w' = status_runs w @ [fullArgs t args, fullArgs t args]"
proof (cases "ensureWorkspaceConfigured t tf w")
  case (Pair u w1)
  then have w1: "status_runs w1 = status_runs w" by (rule ensureWorkspaceConfigured_status)
  show ?thesis
  proof (cases u)
    case (Inl e)
    with Pair assms w1 show ?thesis by (simp add: run_def)
  next
    case (Inr x)
    with Pair assms have "execWithAuthRetry t tf (fullArgs t args) w1 = (r, w')" by (simp add: run_def)
    from execWithAuthRetry_status [OF this] assms(2) w1 show ?thesis by (simp add: fullArgs_first)
  qed
qed

lemma status_variants_distinct:
  "status_detailed \<noteq> status_brief" "status_brief \<noteq> status_workspace t"
  "status_workspace t \<noteq> fullArgs t status_collection"
  by (simp_all add: status_detailed_def status_brief_def status_workspace_def status_collection_def fullArgs_def)

lemma status_variants_first:
  "first_arg status_detailed = Some ''status''" "first_arg status_brief = Some ''status''"
  "first_arg (status_workspace t) = Some ''status''" "first_arg status_collection = Some ''status''"
  by (simp_all add: status_detailed_def status_brief_def status_workspace_def status_collection_def)

lemma pendingChanges_order:
  assumes "pendingChanges join t tf w = (r, w')"
  shows "\<exists>k new. 1 \<le> k \<and> k \<le> 4 \<and> status_runs w' = status_runs w @ new \<and>
           remdups_adj new = take k [status_detailed, status_brief, status_workspace t, fullArgs t status_collection]"
proof -
  obtain r1 w1 where 1: "runBasic t tf status_detailed w = (r1, w1)" by (cases "runBasic t tf status_detailed w")
  obtain r2 w2 where 2: "runBasic t tf status_brief w1 = (r2, w2)" by (cases "runBasic t tf status_brief w1")
  obtain r3 w3 where 3: "runBasic t tf (status_workspace t) w2 = (r3, w3)" by (cases "runBasic t tf (status_workspace t) w2")
  obtain r4 w4 where 4: "run t tf status_collection w3 = (r4, w4)" by (cases "run t tf status_collection w3")
  let ?V1 = status_detailed and ?V2 = status_brief and ?V3 = "status_workspace t" and ?V4 = "fullArgs t status_collection"
  have s1: "status_runs w1 = status_runs w @ [?V1] \<or> status_runs w1 = status_runs w @ [?V1, ?V1]"
    using execWithAuthRetry_status [OF 1 [unfolded runBasic_def] status_variants_first(1)] .
  have s2: "status_runs w2 = status_runs w1 @ [?V2] \<or> status_runs w2 = status_runs w1 @ [?V2, ?V2]"
    using execWithAuthRetry_status [OF 2 [unfolded runBasic_def] status_variants_first(2)] .
  have s3: "status_runs w3 = status_runs w2 @ [?V3] \<or> status_runs w3 = status_runs w2 @ [?V3, ?V3]"
    using execWithAuthRetry_status [OF 3 [unfolded runBasic_def] status_variants_first(3)] .
  have s4: "status_runs w4 = status_runs w3 \<or> status_runs w4 = status_runs w3 @ [?V4] \<or>
      status_runs w4 = status_runs w3 @ [?V4, ?V4]"
    using run_status [OF 4 status_variants_first(4)] .
  have w': "w' = w1 \<or> w' = w2 \<or> w' = w3 \<or> w' = w4"
    using assms 1 2 3 4 by (auto simp: pendingChanges_def Let_def split: if_splits sum.splits prod.splits)
  note d = status_variants_distinct status_variants_distinct [symmetric]
  from w' show ?thesis
  proof (elim disjE)
    assume "w' = w1"
    with s1 have "\<exists>new. status_runs w' = status_runs w @ new \<and> remdups_adj new = take 1 [?V1, ?V2, ?V3, ?V4]"
      by auto
    then show ?thesis by (intro exI [of _ 1]) auto
  next
    assume "w' = w2"
    with s1 s2 have "\<exists>new. status_runs w' = status_runs w @ new \<and> remdups_adj new = take 2 [?V1, ?V2, ?V3, ?V4]"
      using d by auto
    then show ?thesis by (intro exI [of _ 2]) auto
  next
    assume "w' = w3"
    with s1 s2 s3 have "\<exists>new. status_runs w' = status_runs w @ new \<and> remdups_adj new = take 3 [?V1, ?V2, ?V3, ?V4]"
      using d by auto
    then show ?thesis by (intro exI [of _ 3]) auto
  next
    assume w4: "w' = w4"
    from s4 show ?thesis
    proof (elim disjE)
      assume "status_runs w4 = status_runs w3"
      with w4 s1 s2 s3 have "\<exists>new. status_runs w' = status_runs w @ new \<and> remdups_adj new = take 3 [?V1, ?V2, ?V3, ?V4]"
        using d by auto
      then show ?thesis by (intro exI [of _ 3]) auto
    next
      assume "status_runs w4 = status_runs w3 @ [?V4]"
      with w4 s1 s2 s3 have "\<exists>new. status_runs w' = status_runs w @ new \<and> remdups_adj new = take 4 [?V1, ?V2, ?V3, ?V4]"
        using d by auto
      then show ?thesis by (intro exI [of _ 4]) auto
    next
      assume "status_runs w4 = status_runs w3 @ [?V4, ?V4]"
      with w4 s1 s2 s3 have "\<exists>new. status_runs w' = status_runs w @ new \<and> remdups_adj new = take 4 [?V1, ?V2, ?V3, ?V4]"
        using d by auto
      then show ?thesis by (intro exI [of _ 4]) auto
    qed
  qed
qed

lemma fullArgs_status_collection:
  "fullArgs t status_collection =
     (if truthy (cfg_serverUrl t)
      then [''status'', ''.'', ''/recursive'', ''/format:brief'', ''/noprompt'',
            ''/collection:'' @ collectionUrl t]
      else [''status'', ''.'', ''/recursive'', ''/format:brief'', ''/noprompt''])"
  by (simp add: fullArgs_def status_collection_def shouldAddCollection_def)

text \<open>
  C5 (as amended). \<open>pendingChanges\<close> never raises, and it returns what the policy of the
  specification returns for the four queries in the order detailed, brief, brief with
  the workspace, and the brief query of the current folder through \<open>run\<close>. The \<^verbatim>\<open>status\<close>
  runs it makes are, up to the repetition of a run by the authentication retry, the
  first \<open>k\<close> of these four, in this order; the fourth carries the explicit collection
  when a server URL is configured, and no collection when none is.
\<close>

theorem pendingChanges_first_nonempty:
  "\<exists>r w'. pendingChanges join t tf w = (Inr r, w') \<and>
      first_nonempty (status_queries join t tf) w = (r, w') \<and>
      (\<exists>k new. 1 \<le> k \<and> k \<le> 4 \<and> status_runs w' = status_runs w @ new \<and>
         remdups_adj new =
           take k [[''status'', ''/recursive'', ''/format:detailed''],
                   [''status'', ''/recursive'', ''/format:brief''],
                   [''status'',
                    ''/workspace:'' @ (case config t of None \<Rightarrow> [] | Some c \<Rightarrow> workspace c),
                    ''/recursive'', ''/format:brief''],
                   if truthy (cfg_serverUrl t)
                   then [''status'', ''.'', ''/recursive'', ''/format:brief'', ''/noprompt'',
                         ''/collection:'' @ collectionUrl t]
                   else [''status'', ''.'', ''/recursive'', ''/format:brief'', ''/noprompt'']])"
proof -
  obtain r w' where p: "first_nonempty (status_queries join t tf) w = (r, w')"
    by (cases "first_nonempty (status_queries join t tf) w")
  then have q: "pendingChanges join t tf w = (Inr r, w')"
    by (simp add: pendingChanges_policy)
  have ws: "status_workspace t =
      [''status'', ''/workspace:'' @ (case config t of None \<Rightarrow> [] | Some c \<Rightarrow> workspace c),
       ''/recursive'', ''/format:brief'']"
    by (cases "config t") (auto simp: status_workspace_def cfg_workspace_def)
  from pendingChanges_order [OF q] p q show ?thesis
    unfolding fullArgs_status_collection ws status_detailed_def status_brief_def by blast
qed

theorem pendingChanges_first_nonempty_witness:
  "pendingChanges win_join_plain (tfvc_of_url ''http://tfs:8080/tfs'') tool_status [] =
     (Inr [\<lparr>filePath = ''C:'' @ bslash # ''ws'' @ bslash # ''Foo.cs'', action = ''edit''\<rparr>],
      [Call True [''status'', ''/recursive'', ''/format:detailed''],
       Call True [''status'', ''/recursive'', ''/format:brief''],
       Call True [''status'', ''/workspace:WS'', ''/recursive'', ''/format:brief''],
       Call True [''workfold''],
       Call True [''workfold'', ''/map'', ''$/Proj'', ''C:'' @ bslash # ''ws'', ''/workspace:WS'',
                  ''/collection:http://tfs:8080/tfs''],
       Call True [''status'', ''.'', ''/recursive'', ''/format:brief'', ''/noprompt'',
                  ''/collection:http://tfs:8080/tfs'']])
   \<and> first_nonempty (status_queries win_join_plain (tfvc_of_url ''http://tfs:8080/tfs'') tool_status) [] =
     ([\<lparr>filePath = ''C:'' @ bslash # ''ws'' @ bslash # ''Foo.cs'', action = ''edit''\<rparr>],
      snd (pendingChanges win_join_plain (tfvc_of_url ''http://tfs:8080/tfs'') tool_status []))"
proof -
  let ?t = "tfvc_of_url ''http://tfs:8080/tfs''"
  have run: "pendingChanges win_join_plain ?t tool_status [] =
     (Inr [\<lparr>filePath = ''C:'' @ bslash # ''ws'' @ bslash # ''Foo.cs'', action = ''edit''\<rparr>],
      [Call True [''status'', ''/recursive'', ''/format:detailed''],
       Call True [''status'', ''/recursive'', ''/format:brief''],
       Call True [''status'', ''/workspace:WS'', ''/recursive'', ''/format:brief''],
       Call True [''workfold''],
       Call True [''workfold'', ''/map'', ''$/Proj'', ''C:'' @ bslash # ''ws'', ''/workspace:WS'',
                  ''/collection:http://tfs:8080/tfs''],
       Call True [''status'', ''.'', ''/recursive'', ''/format:brief'', ''/noprompt'',
                  ''/collection:http://tfs:8080/tfs'']])"
    by code_simp
  from pendingChanges_first_nonempty [of win_join_plain ?t tool_status "[]"]
  obtain r w' where "pendingChanges win_join_plain ?t tool_status [] = (Inr r, w')"
    and "first_nonempty (status_queries win_join_plain ?t tool_status) [] = (r, w')"
    by blast
  with run show ?thesis by simp
qed

text \<open>
  C5 as stated fails: without a server URL (here without any configuration) the fourth
  query is the brief query of the current folder with \<^verbatim>\<open>/noprompt\<close> and carries no
  collection.
\<close>

theorem pendingChanges_collection_counterexample:
  "\<not> truthy (cfg_serverUrl tfvc_no_config)
   \<and> pendingChanges win_join_plain tfvc_no_config tool_status [] =
     (Inr [\<lparr>filePath = ''C:'' @ bslash # ''ws'' @ bslash # ''Foo.cs'', action = ''edit''\<rparr>],
      [Call True [''status'', ''/recursive'', ''/format:detailed''],
       Call True [''status'', ''/recursive'', ''/format:brief''],
       Call True [''status'', ''/workspace:'', ''/recursive'', ''/format:brief''],
       Call True [''status'', ''.'', ''/recursive'', ''/format:brief'', ''/noprompt'']])"
  by code_simp

section \<open>The captures of a match\<close>

text \<open>The groups of a pattern, each with its own pattern, and the groups that take part in
  every match of a pattern.\<close>

fun groups :: "re \<Rightarrow> (nat \<times> re) set" where
  "groups (Group n a) = insert (n, a) (groups a)"
| "groups (Seq a b) = groups a \<union> groups b"
| "groups (Alt a b) = groups a \<union> groups b"
| "groups _ = {}"

fun binds :: "re \<Rightarrow> nat set" where
  "binds (Group n a) = insert n (binds a)"
| "binds (Seq a b) = binds a \<union> binds b"
| "binds (Alt a b) = binds a \<inter> binds b"
| "binds _ = {}"

lemma rxs_caps_inv:
  assumes "(g', pv, r') \<in> set (rxs f r (g, prev, s))"
    and "\<And>n a g1 p1 s1 g2 p2 r2.
           (n, a) \<in> groups r \<Longrightarrow> (g2, p2, r2) \<in> set (rxs f a (g1, p1, s1)) \<Longrightarrow> Q n s1 r2"
    and "\<And>n x y. g n = Some (x, y) \<Longrightarrow> Q n x y"
    and "g' n = Some (x, y)"
  shows "Q n x y"
  using assms
proof (induction r arbitrary: g prev s g' pv r' n x y)
  case (Atom cs)
  then show ?case by (auto simp: in_rxs_Atom simp del: rxs.simps)
next
  case (Rep cs lo hi greedy)
  then show ?case by (auto simp: in_rxs_Rep simp del: rxs.simps)
next
  case (Seq a b)
  from Seq.prems(1) obtain g1 p1 r1 where 1: "(g1, p1, r1) \<in> set (rxs f a (g, prev, s))"
    and 2: "(g', pv, r') \<in> set (rxs f b (g1, p1, r1))"
    by (auto simp: in_rxs_Seq simp del: rxs.simps)
  have inv1: "Q n x y" if "g1 n = Some (x, y)" for n x y
    using 1 _ Seq.prems(3) that
  proof (rule Seq.IH(1))
    fix n a' g1 p1 s1 g2 p2 r2
    assume "(n, a') \<in> groups a" "(g2, p2, r2) \<in> set (rxs f a' (g1, p1, s1))"
    then show "Q n s1 r2" using Seq.prems(2) [of n a' g2 p2 r2 g1 p1 s1] by simp
  qed
  show ?case using 2 _ inv1 Seq.prems(4)
  proof (rule Seq.IH(2))
    fix n a' g1 p1 s1 g2 p2 r2
    assume "(n, a') \<in> groups b" "(g2, p2, r2) \<in> set (rxs f a' (g1, p1, s1))"
    then show "Q n s1 r2" using Seq.prems(2) [of n a' g2 p2 r2 g1 p1 s1] by simp
  qed
next
  case (Alt a b)
  from Alt.prems(1) consider "(g', pv, r') \<in> set (rxs f a (g, prev, s))" | "(g', pv, r') \<in> set (rxs f b (g, prev, s))"
    by (auto simp: in_rxs_Alt simp del: rxs.simps)
  then show ?case
  proof cases
    case 1
    show ?thesis using 1 _ Alt.prems(3) Alt.prems(4)
    proof (rule Alt.IH(1))
      fix n a' g1 p1 s1 g2 p2 r2
      assume "(n, a') \<in> groups a" "(g2, p2, r2) \<in> set (rxs f a' (g1, p1, s1))"
      then show "Q n s1 r2" using Alt.prems(2) [of n a' g2 p2 r2 g1 p1 s1] by simp
    qed
  next
    case 2
    show ?thesis using 2 _ Alt.prems(3) Alt.prems(4)
    proof (rule Alt.IH(2))
      fix n a' g1 p1 s1 g2 p2 r2
      assume "(n, a') \<in> groups b" "(g2, p2, r2) \<in> set (rxs f a' (g1, p1, s1))"
      then show "Q n s1 r2" using Alt.prems(2) [of n a' g2 p2 r2 g1 p1 s1] by simp
    qed
  qed
next
  case (Group m a)
  from Group.prems(1) obtain g1 where 1: "(g1, pv, r') \<in> set (rxs f a (g, prev, s))"
    and g': "g' = g1(m \<mapsto> (s, r'))"
    by (auto simp: in_rxs_Group simp del: rxs.simps)
  show ?case
  proof (cases "n = m")
    case True
    with g' Group.prems(4) have "x = s" "y = r'" by auto
    moreover have "Q m s r'" using Group.prems(2) [of m a g1 pv r' g prev s] 1 by simp
    ultimately show ?thesis using True by simp
  next
    case False
    with g' Group.prems(4) have "g1 n = Some (x, y)" by simp
    with 1 _ Group.prems(3) show ?thesis
    proof (rule Group.IH)
      fix n a' g1 p1 s1 g2 p2 r2
      assume "(n, a') \<in> groups a" "(g2, p2, r2) \<in> set (rxs f a' (g1, p1, s1))"
      then show "Q n s1 r2" using Group.prems(2) [of n a' g2 p2 r2 g1 p1 s1] by simp
    qed
  qed
next
  case Bol
  then show ?case by (auto simp: in_rxs_Bol simp del: rxs.simps)
next
  case Eol
  then show ?case by (auto simp: in_rxs_Eol simp del: rxs.simps)
next
  case WordB
  then show ?case by (auto simp: in_rxs_WordB simp del: rxs.simps)
next
  case Eps
  then show ?case by auto
qed

lemma rxs_caps_mono:
  "(g', pv, r') \<in> set (rxs f r (g, prev, s)) \<Longrightarrow> g n \<noteq> None \<Longrightarrow> g' n \<noteq> None"
proof (induction r arbitrary: g prev s g' pv r')
  case (Seq a b)
  from Seq.prems(1) obtain g1 p1 r1 where "(g1, p1, r1) \<in> set (rxs f a (g, prev, s))"
    "(g', pv, r') \<in> set (rxs f b (g1, p1, r1))"
    by (auto simp: in_rxs_Seq simp del: rxs.simps)
  with Seq.IH Seq.prems(2) show ?case by blast
next
  case (Group m a)
  from Group.prems(1) obtain g1 where "(g1, pv, r') \<in> set (rxs f a (g, prev, s))" "g' = g1(m \<mapsto> (s, r'))"
    by (auto simp: in_rxs_Group simp del: rxs.simps)
  with Group.IH Group.prems(2) show ?case by (cases "n = m") auto
qed (auto simp: in_rxs simp del: rxs.simps)

lemma rxs_binds:
  "(g', pv, r') \<in> set (rxs f r (g, prev, s)) \<Longrightarrow> n \<in> binds r \<Longrightarrow> g' n \<noteq> None"
proof (induction r arbitrary: g prev s g' pv r')
  case (Seq a b)
  from Seq.prems(1) obtain g1 p1 r1 where 1: "(g1, p1, r1) \<in> set (rxs f a (g, prev, s))"
    and 2: "(g', pv, r') \<in> set (rxs f b (g1, p1, r1))"
    by (auto simp: in_rxs_Seq simp del: rxs.simps)
  from Seq.prems(2) consider "n \<in> binds a" | "n \<in> binds b" by auto
  then show ?case
  proof cases
    case 1
    with \<open>(g1, p1, r1) \<in> set (rxs f a (g, prev, s))\<close> Seq.IH(1) have "g1 n \<noteq> None" by blast
    with 2 show ?thesis by (rule rxs_caps_mono)
  next
    case 2
    with \<open>(g', pv, r') \<in> set (rxs f b (g1, p1, r1))\<close> Seq.IH(2) show ?thesis by blast
  qed
next
  case (Alt a b)
  then show ?case by (auto simp: in_rxs_Alt simp del: rxs.simps)
next
  case (Group m a)
  from Group.prems(1) obtain g1 where "(g1, pv, r') \<in> set (rxs f a (g, prev, s))" "g' = g1(m \<mapsto> (s, r'))"
    by (auto simp: in_rxs_Group simp del: rxs.simps)
  with Group.IH Group.prems(2) show ?case by (cases "n = m") auto
qed auto

lemma lit_match:
  "(g', pv, r') \<in> set (rxs f (lit w) (g, prev, s)) \<Longrightarrow>
     \<exists>t. s = t @ r' \<and> map lower_char t = map lower_char w"
proof (induction w arbitrary: g prev s rule: lit.induct)
  case 1
  then show ?case by simp
next
  case (2 c)
  then show ?case
    by (auto simp: chr_def in_rxs_Atom simp del: rxs.simps member_cs.simps dest!: member_cs_chr_lower)
next
  case (3 c c' cs)
  from "3.prems" obtain g1 p1 r1 where 1: "(g1, p1, r1) \<in> set (rxs f (chr c) (g, prev, s))"
    and 2: "(g', pv, r') \<in> set (rxs f (lit (c' # cs)) (g1, p1, r1))"
    by (auto simp: in_rxs_Seq simp del: rxs.simps)
  from 1 obtain x where x: "s = x # r1" "lower_char x = lower_char c"
    by (auto simp: chr_def in_rxs_Atom simp del: rxs.simps member_cs.simps dest!: member_cs_chr_lower)
  from "3.IH" [OF 2] obtain t where "r1 = t @ r'" "map lower_char t = map lower_char (c' # cs)" by blast
  with x have "s = (x # t) @ r' \<and> map lower_char (x # t) = map lower_char (c # c' # cs)" by simp
  then show ?case by blast
qed

lemma alts_match:
  "st' \<in> set (rxs f (alts rs) st) \<Longrightarrow> rs \<noteq> [] \<Longrightarrow> \<exists>r\<in>set rs. st' \<in> set (rxs f r st)"
  by (induction rs rule: alts.induct) auto

lemma between_append [simp]: "between (t @ r) r = t"
  by (simp add: between_def)

lemma change_words_lower: "w \<in> set change_words \<Longrightarrow> map lower_char w = w"
  by (auto simp: change_words_def is_upper_def code_def)

lemma change_word_match:
  assumes "(g2, p2, r2) \<in> set (rxs f re_change_words (g1, p1, s1))"
  shows "toLowerCase (between s1 r2) \<in> set change_words"
proof -
  from assms have "(g2, p2, r2) \<in> set (rxs f (alts (map lit change_words)) (g1, p1, s1))"
    by (simp only: re_change_words_def)
  moreover have "map lit change_words \<noteq> []" by (simp add: change_words_def)
  ultimately obtain r where r: "r \<in> set (map lit change_words)" "(g2, p2, r2) \<in> set (rxs f r (g1, p1, s1))"
    using alts_match by blast
  from r(1) obtain w where w: "w \<in> set change_words" "r = lit w"
    by (auto simp only: set_map image_iff)
  from r(2) w(2) have "(g2, p2, r2) \<in> set (rxs f (lit w) (g1, p1, s1))" by simp
  from lit_match [OF this] obtain t where "s1 = t @ r2" "map lower_char t = map lower_char w" by blast
  with w(1) show ?thesis by (simp add: toLowerCase_def change_words_lower)
qed

text \<open>A group that holds one of the change words in every match.\<close>

lemma match_re_SomeD:
  assumes "match_re f r s = Some (sk, g, from, rest)"
  shows "\<exists>prev pv. (g, pv, rest) \<in> set (rxs f r (Map.empty, prev, from))"
proof -
  from assms have "search f r None s = Some (sk, g, from, rest)" by (simp add: match_re_def)
  then have "match_at f r (after None sk) from = Some (g, rest)" by (rule search_SomeD [THEN conjunct2, THEN conjunct1])
  then show ?thesis using match_at_SomeD by blast
qed

lemma groups_lit [simp]: "groups (lit w) = {}"
  by (induction w rule: lit.induct) (simp_all add: chr_def)

lemma groups_alts_lit [simp]: "groups (alts (map lit ws)) = {}"
  by (induction ws rule: induct_list012) simp_all

lemma groups_change_words [simp]: "groups re_change_words = {}"
  by (simp add: re_change_words_def)

lemma binds_lit [simp]: "binds (lit w) = {}"
  by (induction w rule: lit.induct) (simp_all add: chr_def)

lemma group_change_word:
  assumes m: "match_re f r s = Some m"
    and grp: "\<And>a. (n, a) \<in> groups r \<Longrightarrow> a = re_change_words"
    and def: "n \<in> binds r"
  shows "toLowerCase (group_text m n) \<in> set change_words"
proof -
  obtain sk g "from" rest where mm: "m = (sk, g, from, rest)" by (cases m) auto
  with m obtain prev pv where in_r: "(g, pv, rest) \<in> set (rxs f r (Map.empty, prev, from))"
    using match_re_SomeD by blast
  from rxs_binds [OF in_r def] obtain x y where xy: "g n = Some (x, y)" by auto
  have "(k = n \<longrightarrow> toLowerCase (between x' y') \<in> set change_words)"
    if "g k = Some (x', y')" for k x' y'
    using in_r _ _ that
  proof (rule rxs_caps_inv [where Q = "\<lambda>k x y. k = n \<longrightarrow> toLowerCase (between x y) \<in> set change_words"])
    fix k a g1 p1 s1 g2 p2 r2
    assume "(k, a) \<in> groups r" "(g2, p2, r2) \<in> set (rxs f a (g1, p1, s1))"
    then show "k = n \<longrightarrow> toLowerCase (between s1 r2) \<in> set change_words"
      using grp change_word_match by blast
  qed simp
  with xy have "toLowerCase (between x y) \<in> set change_words" by blast
  with xy mm show ?thesis by (simp add: group_text_def group_def)
qed

lemma action_word_group:
  "match_re f re_action_word s = Some m \<Longrightarrow> toLowerCase (group_text m 1) \<in> set change_words"
  by (rule group_change_word, assumption) (simp_all add: re_action_word_def)

lemma action_first_group:
  "match_re f re_action_first s = Some m \<Longrightarrow> toLowerCase (group_text m 1) \<in> set change_words"
  by (rule group_change_word, assumption) (simp_all add: re_action_first_def plus_def)

lemma server_item_group:
  "match_re f re_server_item s = Some m \<Longrightarrow> toLowerCase (group_text m 2) \<in> set change_words"
  by (rule group_change_word, assumption) (simp_all add: re_server_item_def chr_def star_def star_lazy_def)

lemma local_item_group:
  "match_re f re_local_item s = Some m \<Longrightarrow> toLowerCase (group_text m 2) \<in> set change_words"
  by (rule group_change_word, assumption) (simp_all add: re_local_item_def chr_def star_def plus_def plus_lazy_def)

lemma action_local_group:
  "match_re f re_action_local s = Some m \<Longrightarrow> toLowerCase (group_text m 1) \<in> set change_words"
  by (rule group_change_word, assumption) (simp_all add: re_action_local_def chr_def plus_def)

lemma change_line_group:
  "match_re f re_change_line s = Some m \<Longrightarrow> toLowerCase (group_text m 1) \<in> set change_words"
  by (rule group_change_word, assumption) (simp_all add: re_change_line_def chr_def star_def)

section \<open>The history parser\<close>

















text \<open>
  A history text in the detailed format is a sequence of sections: a rule of dashes, white
  space with a line break in it, the text of a block, and white space that ends with a
  line break. In a well-formed section the rule has five dashes or more, and the block is
  not empty, neither starts nor ends with white space, and has no line that starts with a
  dash.
\<close>

record history_section =
  dashes :: nat
  rule_space :: string
  block_text :: string
  block_space :: string

definition section_text :: "history_section \<Rightarrow> string" where
  "section_text s = replicate (dashes s) (CHR ''-'') @ rule_space s @ block_text s @ block_space s"

definition history_text :: "history_section list \<Rightarrow> string" where
  "history_text secs = concat (map section_text secs)"












lemma group_text_found [simp]: "group_text (sk, [n \<mapsto> (t @ r, r)], from, rest) n = t"
  by (simp add: group_text_def group_def)




























text \<open>Three sections: in the second the word \<^verbatim>\<open>changeset:\<close> does not start a line; in the
  third it is written in capitals after white space, and its number follows on the next
  line.\<close>

definition history_sections_3 :: "history_section list" where
  "history_sections_3 =
     [\<lparr>dashes = 7, rule_space = [CR, LF],
       block_text = ''Changeset: 7'' @ [CR, LF] @ ''User: alice'' @ [CR, LF] @ ''Date: 1 May 2024'',
       block_space = [CR, LF, CR, LF]\<rparr>,
      \<lparr>dashes = 5, rule_space = '' '' @ [CR, LF, CR, LF],
       block_text = ''User: bob'' @ [CR, LF] @ ''the changeset: 8 was rolled back'',
       block_space = [CR, LF]\<rparr>,
      \<lparr>dashes = 7, rule_space = [LF],
       block_text = ''User: carol'' @ [LF] @ ''  CHANGESET:'' @ [LF] @ ''0012 and more'',
       block_space = [LF]\<rparr>]"


lemma parseHistory_sections_3:
  "map changesetId (parseHistory (history_text history_sections_3)) = [Whole 7, Whole 12]"
  by code_simp


section \<open>The compact status parser\<close>

text \<open>A compact status table with one data row, whose change is \<^verbatim>\<open>branch\<close>, and a data row
  whose change, \<^verbatim>\<open>lock\<close>, is none of the words the parser looks for.\<close>

definition status_table_branch :: string where
  "status_table_branch =
     ''File name  Change  Local path'' @ [CR, LF] @
     ''---------  ------  ----------'' @ [CR, LF] @
     ''$/Proj/Dev'' @ [CR, LF] @
     ''Foo.cs     branch  C:'' @ bslash # ''ws'' @ bslash # ''Foo.cs'' @ [CR, LF]"

definition status_row_lock :: string where
  "status_row_lock = ''Bar.cs     lock    C:'' @ bslash # ''ws'' @ bslash # ''Bar.cs'' @ [CR, LF]"

text \<open>
  C1. The interface \<^verbatim>\<open>TFPendingItem\<close> declares the actions \<^verbatim>\<open>edit\<close>, \<^verbatim>\<open>add\<close>, \<^verbatim>\<open>delete\<close>,
  \<^verbatim>\<open>rename\<close>, \<^verbatim>\<open>merge\<close> and \<^verbatim>\<open>unknown\<close>, as the claim does. \<open>parsePending\<close> gives the one row
  of the first table the action \<^verbatim>\<open>branch\<close>, which is none of them, and the row with the
  change \<^verbatim>\<open>lock\<close> the action \<^verbatim>\<open>edit\<close>, not \<^verbatim>\<open>unknown\<close>.
\<close>

theorem parsePending_branch_row:
  "parsePending status_table_branch =
     [\<lparr>filePath = ''C:'' @ bslash # ''ws'' @ bslash # ''Foo.cs'', action = ''branch''\<rparr>]
   \<and> ''branch'' \<notin> set [''edit'', ''add'', ''delete'', ''rename'', ''merge'', ''unknown'']
   \<and> parsePending status_row_lock =
     [\<lparr>filePath = ''C:'' @ bslash # ''ws'' @ bslash # ''Bar.cs'', action = ''edit''\<rparr>]"
  by code_simp

end
